theory Spec2Isabelle
  imports
    Main
    "HOL-Library.Sublist"
    "HOL-Library.Char_ord"
    "HOL-Library.List_Lexorder"
    "HOL-Library.Product_Lexorder"
    "HOL-Library.Multiset"
    "HOL-Library.Word"
begin

section \<open>The firmware extractor (firmadyne, extractor.py)\<close>

text \<open>
  A shallow embedding of \<^verbatim>\<open>extractor.py\<close>: the classes \<^verbatim>\<open>Extractor\<close> and
  \<^verbatim>\<open>ExtractionItem\<close>. Strings are \<^typ>\<open>string\<close> (ASCII), file contents are
  lists of bytes, Python's integers are \<^typ>\<open>int\<close>. The libraries the engine calls
  (\<^verbatim>\<open>binwalk\<close>, \<^verbatim>\<open>magic\<close>, \<^verbatim>\<open>hashlib\<close>, \<^verbatim>\<open>tempfile\<close>) are parameters, collected
  in the record \<open>env\<close>. Trace output (\<^verbatim>\<open>printf\<close>) and the removal of scratch
  directories in \<^verbatim>\<open>__del__\<close> are not modelled.
\<close>

subsection \<open>Strings, as Python handles them\<close>

text \<open>\<^verbatim>\<open>sub in s\<close> is \<^const>\<open>sublist\<close>, \<^verbatim>\<open>s.endswith(t)\<close> is \<^const>\<open>suffix\<close>.\<close>

datatype exn = ValueError | IndexError | OSError | BinwalkError

text \<open>\<^verbatim>\<open>s.split(c)\<close> for a separator of one character.\<close>

fun split :: "char \<Rightarrow> string \<Rightarrow> string list" where
  "split c [] = [[]]"
| "split c (x # xs) =
     (if x = c then [] # split c xs
      else (case split c xs of [] \<Rightarrow> [[x]] | y # ys \<Rightarrow> (x # y) # ys))"

definition isdigit :: "char \<Rightarrow> bool" where
  "isdigit c = (CHR ''0'' \<le> c \<and> c \<le> CHR ''9'')"

definition isspace :: "char \<Rightarrow> bool" where
  "isspace c = (c = CHR '' '' \<or> (9 \<le> (of_char c :: nat) \<and> (of_char c :: nat) \<le> 13)
     \<or> (28 \<le> (of_char c :: nat) \<and> (of_char c :: nat) \<le> 31))"

definition digit_value :: "char \<Rightarrow> nat option" where
  "digit_value c =
     (if CHR ''0'' \<le> c \<and> c \<le> CHR ''9'' then Some (of_char c - 48)
      else if CHR ''a'' \<le> c \<and> c \<le> CHR ''z'' then Some (of_char c - 87)
      else if CHR ''A'' \<le> c \<and> c \<le> CHR ''Z'' then Some (of_char c - 55)
      else None)"

text \<open>
  The digit scan of \<^verbatim>\<open>int(s, base)\<close>: digits below the base, single underscores
  between them. It returns the value, the number of digits, whether the last character
  read was an underscore, and the rest of the string; \<open>None\<close> on a double underscore.
\<close>

fun scan_digits :: "nat \<Rightarrow> string \<Rightarrow> nat \<Rightarrow> nat \<Rightarrow> bool \<Rightarrow> (nat \<times> nat \<times> bool \<times> string) option" where
  "scan_digits base [] acc k prev = Some (acc, k, prev, [])"
| "scan_digits base (c # cs) acc k prev =
     (if c = CHR ''_'' then (if prev then None else scan_digits base cs acc k True)
      else (case digit_value c of
              None \<Rightarrow> Some (acc, k, prev, c # cs)
            | Some d \<Rightarrow>
                if d < base then scan_digits base cs (acc * base + d) (Suc k) False
                else Some (acc, k, prev, c # cs)))"

text \<open>
  \<^verbatim>\<open>int(s, base)\<close> for base 10 and 16: blanks around the number, a sign, for base 16 an
  optional \<^verbatim>\<open>0x\<close> (which one underscore may follow), then the digits. Anything else is
  a \<^verbatim>\<open>ValueError\<close>.
\<close>

definition strip_prefix16 :: "nat \<Rightarrow> string \<Rightarrow> string" where
  "strip_prefix16 base s =
     (case s of
        c0 # c1 # r \<Rightarrow>
          if base = 16 \<and> c0 = CHR ''0'' \<and> (c1 = CHR ''x'' \<or> c1 = CHR ''X'')
          then (case r of u # r' \<Rightarrow> if u = CHR ''_'' then r' else r | [] \<Rightarrow> r)
          else s
      | _ \<Rightarrow> s)"

definition py_int :: "string \<Rightarrow> nat \<Rightarrow> exn + int" where
  "py_int s base =
     (let s1 = dropWhile isspace s;
          (neg, s2) = (case s1 of
                         c # r \<Rightarrow> if c = CHR ''+'' then (False, r)
                                  else if c = CHR ''-'' then (True, r) else (False, s1)
                       | [] \<Rightarrow> (False, s1));
          s3 = strip_prefix16 base s2
      in if s3 \<noteq> [] \<and> hd s3 = CHR ''_'' then Inl ValueError
         else (case scan_digits base s3 0 0 False of
                 None \<Rightarrow> Inl ValueError
               | Some (v, k, prev, rest) \<Rightarrow>
                   if prev \<or> k = 0 \<or> dropWhile isspace rest \<noteq> [] then Inl ValueError
                   else Inr (if neg then - int v else int v)))"

subsection \<open>Files and directories\<close>

type_synonym bytes = "8 word list"

text \<open>
  A directory on disk: its entries in the order \<^verbatim>\<open>os.listdir\<close> gives them. There are
  regular files and directories only (no links, no devices).
\<close>

datatype fsnode = File bytes | Dir "(string \<times> fsnode) list"

fun isdir :: "fsnode \<Rightarrow> bool" where
  "isdir (Dir es) = True"
| "isdir (File d) = False"

text \<open>\<^verbatim>\<open>os.path.join(a, b)\<close> of two components.\<close>

definition path_join :: "string \<Rightarrow> string \<Rightarrow> string" where
  "path_join a b =
     (if b \<noteq> [] \<and> hd b = CHR ''/'' then b
      else if a = [] \<or> last a = CHR ''/'' then a @ b
      else a @ ''/'' @ b)"

text \<open>\<^verbatim>\<open>os.path.isdir(os.path.join(path, name))\<close> for a directory with the entries \<open>es\<close>.\<close>

definition isdir_in :: "(string \<times> fsnode) list \<Rightarrow> string \<Rightarrow> bool" where
  "isdir_in es name = (case map_of es name of Some t \<Rightarrow> isdir t | None \<Rightarrow> False)"

text \<open>
  \<^verbatim>\<open>os.walk(top)\<close>, top down: for each directory its path, the names of its files, and
  (to open them) its entries.
\<close>

fun os_walk :: "string \<Rightarrow> fsnode \<Rightarrow> (string \<times> string list \<times> (string \<times> fsnode) list) list" where
  "os_walk dtop (File d) = []"
| "os_walk dtop (Dir es) =
     (dtop, map fst (filter (\<lambda>(n, t). \<not> isdir t) es), es)
     # concat (map (\<lambda>(n, t). if isdir t then os_walk (path_join dtop n) t else []) es)"

subsection \<open>Extractor: the static methods\<close>

definition UNIX_DIRS :: "string list" where
  "UNIX_DIRS = [''bin'', ''etc'', ''dev'', ''home'', ''lib'', ''mnt'', ''opt'', ''root'',
                ''run'', ''sbin'', ''tmp'', ''usr'', ''var'']"

definition UNIX_THRESHOLD :: nat where
  "UNIX_THRESHOLD = 4"

text \<open>
  \<^verbatim>\<open>io_dd(indir, offset, size, outdir)\<close>: the contents of the output file afterwards.
  Every caller has just created it empty with \<^verbatim>\<open>mkstemp\<close>, so it stays empty when
  \<open>size\<close> is 0. A negative offset makes \<^verbatim>\<open>seek\<close> raise; \<^verbatim>\<open>read(-1)\<close> returns
  everything up to the end of the file, and \<^verbatim>\<open>read\<close> raises for a size below -1.
\<close>

definition io_dd :: "bytes \<Rightarrow> int \<Rightarrow> int \<Rightarrow> exn + bytes" where
  "io_dd indata offset sz =
     (if sz = 0 then Inr []
      else if offset < 0 then Inl OSError
      else if sz = - 1 then Inr (drop (nat offset) indata)
      else if sz < - 1 then Inl ValueError
      else Inr (take (nat sz) (drop (nat offset) indata)))"

text \<open>
  \<^verbatim>\<open>io_find_rootfs(start, recurse)\<close>. The loop over single directory chains:
\<close>

fun single_chain :: "string \<Rightarrow> fsnode \<Rightarrow> string \<times> fsnode" where
  "single_chain path (Dir [(name, Dir es)]) = single_chain (path_join path name) (Dir es)"
| "single_chain path t = (path, t)"

definition unix_count :: "(string \<times> fsnode) list \<Rightarrow> nat" where
  "unix_count es = length (filter (\<lambda>subdir. subdir \<in> set UNIX_DIRS \<and> isdir_in es subdir) (map fst es))"

text \<open>The loop over the subdirectories, each tried with \<open>recurse = False\<close>.\<close>

fun first_hit :: "(exn + bool \<times> string) list \<Rightarrow> (exn + bool \<times> string) option" where
  "first_hit [] = None"
| "first_hit (Inl e # rs) = Some (Inl e)"
| "first_hit (Inr (found, p) # rs) = (if found then Some (Inr (found, p)) else first_hit rs)"

function io_find_rootfs :: "string \<Rightarrow> fsnode \<Rightarrow> bool \<Rightarrow> exn + bool \<times> string" where
  "io_find_rootfs start t recurse =
     (case single_chain start t of
        (path, File d) \<Rightarrow> Inl OSError
      | (path, Dir es) \<Rightarrow>
          if unix_count es \<ge> UNIX_THRESHOLD then Inr (True, path)
          else if recurse then
            (case first_hit
                    (map (\<lambda>subdir. case map_of es subdir of
                                      Some sub \<Rightarrow> io_find_rootfs (path_join path subdir) sub False
                                    | None \<Rightarrow> Inl OSError)
                         (filter (isdir_in es) (map fst es))) of
               Some res \<Rightarrow> res
             | None \<Rightarrow> Inr (False, start))
          else Inr (False, start))"
  by pat_completeness auto
termination
  by (relation "measure (\<lambda>(start, t, recurse). if recurse then 1 else 0)") auto

declare io_find_rootfs.simps [simp del]

subsection \<open>The libraries and the state of a job\<close>

text \<open>A result of \<^verbatim>\<open>binwalk\<close>: its description and its offset in the scanned file.\<close>

record entry =
  description :: string
  offset :: nat

text \<open>
  A module of a \<^verbatim>\<open>binwalk.scan\<close>: its results and \<^verbatim>\<open>module.extractor.directory\<close>, with
  what is on disk there after the scan.
\<close>

record scan_module =
  results :: "entry list"
  directory :: "(string \<times> fsnode) option"

text \<open>
  The libraries: \<^verbatim>\<open>Extractor.magic(path, mime)\<close> on a file with the given contents,
  \<^verbatim>\<open>hashlib.md5\<close>, \<^verbatim>\<open>binwalk.scan\<close> with or without \<^verbatim>\<open>-e -r\<close> for a signature
  category, on a file, in a working directory (\<open>None\<close> when it raises), and the names
  \<^verbatim>\<open>tempfile\<close> hands out, by how many it has already made.
\<close>

record env =
  magic :: "string \<Rightarrow> bytes \<Rightarrow> bool \<Rightarrow> string"
  md5 :: "bytes \<Rightarrow> string"
  binwalk_scan :: "bool \<Rightarrow> string \<Rightarrow> string \<Rightarrow> bytes \<Rightarrow> string option \<Rightarrow> scan_module list option"
  tempname :: "nat \<Rightarrow> string"

text \<open>What \<^verbatim>\<open>shutil.copy\<close> and \<^verbatim>\<open>shutil.make_archive\<close> leave in the output directory.\<close>

datatype outfile = Copy bytes | Archive string

text \<open>
  The \<^verbatim>\<open>Extractor\<close> object and the part of the world the job changes: the files
  written so far, by path, and the number of temporary names used. The set \<open>visited\<close>
  is kept as the list of the checksums added, in the order they were added.
\<close>

record state =
  output_dir :: "string option"
  do_kernel :: bool
  do_rootfs :: bool
  visited :: "string list"
  files :: "string \<Rightarrow> outfile option"
  temp_count :: nat

text \<open>
  An \<^verbatim>\<open>ExtractionItem\<close>. \<open>content\<close> is what the file \<open>item\<close> holds (no file an item
  names is rewritten during a job).
\<close>

record extraction_item =
  temp :: "string option"
  depth :: nat
  item :: string
  content :: bytes
  checksum :: string
  tag :: string
  output_prefix :: "string option"
  terminate :: bool
  status :: "bool \<times> bool"

definition RECURSION_BREADTH :: nat where
  "RECURSION_BREADTH = 5"

definition RECURSION_DEPTH :: nat where
  "RECURSION_DEPTH = 3"

definition mkstemp :: "env \<Rightarrow> string option \<Rightarrow> state \<Rightarrow> string \<times> state" where
  "mkstemp E dir s =
     (path_join (case dir of Some d \<Rightarrow> d | None \<Rightarrow> ''/tmp'') (tempname E (temp_count s)),
      s\<lparr>temp_count := Suc (temp_count s)\<rparr>)"

definition mkdtemp :: "env \<Rightarrow> state \<Rightarrow> string \<times> state" where
  "mkdtemp E s = mkstemp E None s"

definition isfile :: "state \<Rightarrow> string option \<Rightarrow> bool" where
  "isfile s p = (case p of Some q \<Rightarrow> files s q \<noteq> None | None \<Rightarrow> False)"

subsection \<open>ExtractionItem: status\<close>

definition get_kernel_status :: "extraction_item \<Rightarrow> bool" where
  "get_kernel_status it = fst (status it)"

definition get_rootfs_status :: "extraction_item \<Rightarrow> bool" where
  "get_rootfs_status it = snd (status it)"

definition get_kernel_path :: "extraction_item \<Rightarrow> string option" where
  "get_kernel_path it = (case output_prefix it of Some out \<Rightarrow> Some (out @ ''.kernel'') | None \<Rightarrow> None)"

definition get_rootfs_path :: "extraction_item \<Rightarrow> string option" where
  "get_rootfs_path it = (case output_prefix it of Some out \<Rightarrow> Some (out @ ''.tar.gz'') | None \<Rightarrow> None)"

definition get_status :: "extraction_item \<Rightarrow> bool" where
  "get_status it = (terminate it \<or> (fst (status it) \<and> snd (status it)))"

text \<open>\<^verbatim>\<open>update_status\<close> returns \<^verbatim>\<open>get_status\<close> of the item it leaves.\<close>

definition update_status :: "state \<Rightarrow> extraction_item \<Rightarrow> extraction_item" where
  "update_status s it =
     (let kernel_done = (if do_kernel s \<and> output_prefix it \<noteq> None then isfile s (get_kernel_path it)
                         else \<not> do_kernel s);
          rootfs_done = (if do_rootfs s \<and> output_prefix it \<noteq> None then isfile s (get_rootfs_path it)
                         else \<not> do_rootfs s)
      in it\<lparr>status := (kernel_done, rootfs_done)\<rparr>)"

text \<open>The constructor, for the file \<open>path\<close> holding \<open>c\<close>.\<close>

definition ExtractionItem :: "env \<Rightarrow> state \<Rightarrow> string \<Rightarrow> bytes \<Rightarrow> nat \<Rightarrow> extraction_item" where
  "ExtractionItem E s path c d =
     update_status s
       \<lparr>temp = None, depth = d, item = path, content = c, checksum = md5 E c, tag = ''1'',
        output_prefix = (case output_dir s of Some od \<Rightarrow> Some (path_join od ''1'') | None \<Rightarrow> None),
        terminate = False, status = (False, False)\<rparr>"

text \<open>\<^verbatim>\<open>binwalk.scan(self.item, ...)\<close>, run in the item's scratch directory.\<close>

definition scan :: "env \<Rightarrow> bool \<Rightarrow> string \<Rightarrow> extraction_item \<Rightarrow> scan_module list option" where
  "scan E ex fmt it = binwalk_scan E ex fmt (item it) (content it) (temp it)"

text \<open>\<^verbatim>\<open>os.path.getsize(self.item)\<close>\<close>

definition getsize :: "extraction_item \<Rightarrow> int" where
  "getsize it = int (length (content it))"

subsection \<open>ExtractionItem: the checks that do not recurse\<close>

text \<open>
  A check leaves a value or an exception, the item and the state. A check that
  recurses takes the recursive call as a parameter, \<open>None\<close> when it does not return.
\<close>

type_synonym 'a result = "(exn + 'a) \<times> extraction_item \<times> state"
type_synonym recur = "extraction_item \<Rightarrow> state \<Rightarrow> (bool \<times> extraction_item \<times> state) option"

definition check_blacklist :: "env \<Rightarrow> extraction_item \<Rightarrow> bool" where
  "check_blacklist E it =
     (if list_ex (\<lambda>s. sublist s (magic E (item it) (content it) True))
           [''application/x-executable'', ''application/x-dosexec'', ''application/x-object'',
            ''application/pdf'', ''application/msword'', ''image/'', ''text/'', ''video/'']
      then True
      else if list_ex (\<lambda>s. sublist s (magic E (item it) (content it) False))
           [''executable'', ''universal binary'', ''relocatable'', ''bytecode'', ''applet'']
      then True
      else suffix ''.dmg'' (item it))"

text \<open>
  The decrypted file is written to the scratch directory, which no later step of the
  model reads; only the answer is kept.
\<close>

definition check_encryption :: "extraction_item \<Rightarrow> state \<Rightarrow> bool result" where
  "check_encryption it s = (Inr (take 4 (content it) = [0x53, 0x48, 0x52, 0x53]), it, s)"

text \<open>The loop over the results of the first module in \<^verbatim>\<open>_check_kernel\<close>.\<close>

fun kernel_entries :: "entry list \<Rightarrow> extraction_item \<Rightarrow> state \<Rightarrow> bool result" where
  "kernel_entries [] it s = (Inr False, it, s)"
| "kernel_entries (e # es) it s =
     (if sublist ''kernel version'' (description e) then
        (if sublist ''Linux'' (description e) then
           (case get_kernel_path it of
              Some p \<Rightarrow> (Inr True, it, s\<lparr>files := (files s)(p \<mapsto> Copy (content it))\<rparr>)
            | None \<Rightarrow> (Inr True, it, s\<lparr>do_kernel := False\<rparr>))
         else (Inr False, it, s))
      else kernel_entries es it s)"

definition check_kernel :: "env \<Rightarrow> extraction_item \<Rightarrow> state \<Rightarrow> bool result" where
  "check_kernel E it s =
     (if \<not> get_kernel_status it then
        (case scan E False ''kernel'' it of
           None \<Rightarrow> (Inl BinwalkError, it, s)
         | Some [] \<Rightarrow> (Inr False, it, s)
         | Some (m # ms) \<Rightarrow> kernel_entries (results m) it s)
      else (Inr False, it, s))"

text \<open>Archiving a root directory that was found, in \<^verbatim>\<open>_check_rootfs\<close> and \<^verbatim>\<open>_check_recursive\<close>.\<close>

definition found_rootfs :: "string \<Rightarrow> extraction_item \<Rightarrow> state \<Rightarrow> state" where
  "found_rootfs root it s =
     (case output_prefix it of
        Some out \<Rightarrow> s\<lparr>files := (files s)(out @ ''.tar.gz'' \<mapsto> Archive root)\<rparr>
      | None \<Rightarrow> s\<lparr>do_rootfs := False\<rparr>)"

fun rootfs_modules :: "scan_module list \<Rightarrow> extraction_item \<Rightarrow> state \<Rightarrow> bool result" where
  "rootfs_modules [] it s = (Inr False, it, s)"
| "rootfs_modules (m # ms) it s =
     (case directory m of
        None \<Rightarrow> rootfs_modules ms it s
      | Some (dir, t) \<Rightarrow>
          (case io_find_rootfs dir t True of
             Inl e \<Rightarrow> (Inl e, it, s)
           | Inr (found, root) \<Rightarrow>
               if \<not> found then (Inr False, it, s)
               else (Inr True, it, found_rootfs root it s)))"

definition check_rootfs :: "env \<Rightarrow> extraction_item \<Rightarrow> state \<Rightarrow> bool result" where
  "check_rootfs E it s =
     (if \<not> get_rootfs_status it then
        (case scan E True ''filesystem'' it of
           None \<Rightarrow> (Inl BinwalkError, it, s)
         | Some ms \<Rightarrow>  rootfs_modules ms it s)
      else (Inr False, it, s))"

subsection \<open>ExtractionItem: carving a firmware image\<close>

text \<open>What a pass through the body of a loop leaves: go on, or return from the method.\<close>

datatype 'a flow = Next 'a | Return bool

text \<open>The loop over the fields of a uImage description, for \<^verbatim>\<open>kernel_size\<close>.\<close>

fun uimage_size :: "string list \<Rightarrow> int \<Rightarrow> exn + int" where
  "uimage_size [] kernel_size = Inr kernel_size"
| "uimage_size (stmt # stmts) kernel_size =
     (if sublist ''image size:'' stmt then
        (case py_int (filter isdigit stmt) 10 of
           Inl x \<Rightarrow> Inl x
         | Inr v \<Rightarrow> uimage_size stmts v)
      else uimage_size stmts kernel_size)"

text \<open>\<^verbatim>\<open>int(stmt.split(':')[1], 16)\<close>\<close>

definition hex_field :: "string \<Rightarrow> exn + int" where
  "hex_field stmt =
     (case split CHR '':'' stmt of
        a # b # r \<Rightarrow> py_int b 16
      | _ \<Rightarrow> Inl IndexError)"

text \<open>
  The loop over the fields of a TP-Link or TRX description, for
  \<^verbatim>\<open>(kernel_offset, kernel_size, rootfs_offset, rootfs_size)\<close>.
\<close>

fun trx_fields :: "string list \<Rightarrow> int \<times> int \<times> int \<times> int \<Rightarrow> exn + int \<times> int \<times> int \<times> int" where
  "trx_fields [] v = Inr v"
| "trx_fields (stmt # stmts) (kernel_offset, kernel_size, rootfs_offset, rootfs_size) =
     (if sublist ''kernel offset:'' stmt then
        (case hex_field stmt of Inl x \<Rightarrow> Inl x
         | Inr v \<Rightarrow> trx_fields stmts (v, kernel_size, rootfs_offset, rootfs_size))
      else if sublist ''kernel length:'' stmt then
        (case hex_field stmt of Inl x \<Rightarrow> Inl x
         | Inr v \<Rightarrow> trx_fields stmts (kernel_offset, v, rootfs_offset, rootfs_size))
      else if sublist ''rootfs offset:'' stmt then
        (case hex_field stmt of Inl x \<Rightarrow> Inl x
         | Inr v \<Rightarrow> trx_fields stmts (kernel_offset, kernel_size, v, rootfs_size))
      else if sublist ''rootfs length:'' stmt then
        (case hex_field stmt of Inl x \<Rightarrow> Inl x
         | Inr v \<Rightarrow> trx_fields stmts (kernel_offset, kernel_size, rootfs_offset, v))
      else trx_fields stmts (kernel_offset, kernel_size, rootfs_offset, rootfs_size))"

text \<open>"compute sizes if only offsets provided"\<close>

definition trx_sizes :: "int \<times> int \<times> int \<times> int \<Rightarrow> int \<Rightarrow> int \<times> int" where
  "trx_sizes v filesize =
     (case v of (kernel_offset, kernel_size, rootfs_offset, rootfs_size) \<Rightarrow>
        if kernel_offset \<noteq> rootfs_size \<and> kernel_size = 0 \<and> rootfs_size = 0
        then (rootfs_offset - kernel_offset, filesize - rootfs_offset)
        else (kernel_size, rootfs_size))"

text \<open>
  \<^verbatim>\<open>mkstemp\<close> in the scratch directory, \<^verbatim>\<open>io_dd\<close> into the new file, and
  \<^verbatim>\<open>ExtractionItem(self.extractor, tmp_path, self.depth).extract()\<close>.
\<close>

definition carve :: "recur \<Rightarrow> env \<Rightarrow> int \<Rightarrow> int \<Rightarrow> extraction_item \<Rightarrow> state
    \<Rightarrow> ((exn + bool) \<times> state) option" where
  "carve rec E off sz it s =
     (case mkstemp E (temp it) s of (tmp_path, s1) \<Rightarrow>
        (case io_dd (content it) off sz of
           Inl x \<Rightarrow> Some (Inl x, s1)
         | Inr d \<Rightarrow>
             (case rec (ExtractionItem E s1 tmp_path d (depth it)) s1 of
                None \<Rightarrow> None
              | Some (r, child, s2) \<Rightarrow> Some (Inr r, s2))))"

text \<open>The body of the loop over the results in \<^verbatim>\<open>_check_firmware\<close>.\<close>

definition firmware_entry :: "recur \<Rightarrow> env \<Rightarrow> entry \<Rightarrow> extraction_item \<Rightarrow> state
    \<Rightarrow> unit flow result option" where
  "firmware_entry rec E e it s =
     (if sublist ''uImage header'' (description e) then
        (if \<not> get_kernel_status it \<and> sublist ''OS Kernel Image'' (description e) then
           (case uimage_size (split CHR '','' (description e)) 0 of
              Inl x \<Rightarrow> Some (Inl x, it, s)
            | Inr kernel_size \<Rightarrow>
                if kernel_size \<noteq> 0 \<and> int (offset e) + 64 + kernel_size \<le> getsize it then
                  (case carve rec E (int (offset e) + 64) kernel_size it s of
                     None \<Rightarrow> None
                   | Some (Inl x, s1) \<Rightarrow> Some (Inl x, it, s1)
                   | Some (Inr r, s1) \<Rightarrow> Some (Inr (Return r), it, s1))
                else Some (Inr (Next ()), it, s))
         else Some (Inr (Next ()), it, s))
      else if \<not> get_kernel_status it \<and> \<not> get_rootfs_status it
              \<and> sublist ''rootfs offset: '' (description e)
              \<and> sublist ''kernel offset: '' (description e) then
        (case trx_fields (split CHR '','' (description e)) (0, 0, 0, 0) of
           Inl x \<Rightarrow> Some (Inl x, it, s)
         | Inr (kernel_offset, kernel_size0, rootfs_offset, rootfs_size0) \<Rightarrow>
             (case trx_sizes (kernel_offset, kernel_size0, rootfs_offset, rootfs_size0) (getsize it) of
                (kernel_size, rootfs_size) \<Rightarrow>
                  if (kernel_size > 0 \<and> kernel_offset + kernel_size \<le> getsize it)
                     \<and> (rootfs_size \<noteq> 0 \<and> rootfs_offset + rootfs_size \<le> getsize it) then
                    (case carve rec E kernel_offset kernel_size it s of
                       None \<Rightarrow> None
                     | Some (Inl x, s1) \<Rightarrow> Some (Inl x, it, s1)
                     | Some (Inr r1, s1) \<Rightarrow>
                         (case carve rec E rootfs_offset rootfs_size it s1 of
                            None \<Rightarrow> None
                          | Some (Inl x, s2) \<Rightarrow> Some (Inl x, it, s2)
                          | Some (Inr r2, s2) \<Rightarrow>
                              Some (Inr (Return (get_status (update_status s2 it))),
                                    update_status s2 it, s2)))
                  else Some (Inr (Next ()), it, s)))
      else Some (Inr (Next ()), it, s))"

fun firmware_entries :: "recur \<Rightarrow> env \<Rightarrow> entry list \<Rightarrow> extraction_item \<Rightarrow> state
    \<Rightarrow> unit flow result option" where
  "firmware_entries rec E [] it s = Some (Inr (Next ()), it, s)"
| "firmware_entries rec E (e # es) it s =
     (case firmware_entry rec E e it s of
        None \<Rightarrow> None
      | Some (Inr (Next u), it1, s1) \<Rightarrow> firmware_entries rec E es it1 s1
      | Some r \<Rightarrow> Some r)"

fun firmware_modules :: "recur \<Rightarrow> env \<Rightarrow> scan_module list \<Rightarrow> extraction_item \<Rightarrow> state
    \<Rightarrow> bool result option" where
  "firmware_modules rec E [] it s = Some (Inr False, it, s)"
| "firmware_modules rec E (m # ms) it s =
     (case firmware_entries rec E (results m) it s of
        None \<Rightarrow> None
      | Some (Inr (Next u), it1, s1) \<Rightarrow> firmware_modules rec E ms it1 s1
      | Some (Inr (Return b), it1, s1) \<Rightarrow> Some (Inr b, it1, s1)
      | Some (Inl x, it1, s1) \<Rightarrow> Some (Inl x, it1, s1))"

definition check_firmware :: "recur \<Rightarrow> env \<Rightarrow> extraction_item \<Rightarrow> state \<Rightarrow> bool result option" where
  "check_firmware rec E it s =
     (case scan E False ''header'' it of
        None \<Rightarrow> Some (Inl BinwalkError, it, s)
      | Some ms \<Rightarrow> firmware_modules rec E ms it s)"

subsection \<open>ExtractionItem: archives and compressed files\<close>

text \<open>The loop over the fields of \<open>desc\<close>, for \<^verbatim>\<open>orig\<close>.\<close>

fun orig_fields :: "string list \<Rightarrow> string option \<Rightarrow> exn + string option" where
  "orig_fields [] orig = Inr orig"
| "orig_fields (stmt # stmts) orig =
     (if sublist ''original file name:'' stmt then
        (case split (CHR 0x22) stmt of
           a # b # r \<Rightarrow> orig_fields stmts (Some b)
         | _ \<Rightarrow> Inl IndexError)
      else orig_fields stmts orig)"

text \<open>
  The two sorts of the file names of a walked directory, and the original file name
  moved to the front.
\<close>

definition order_files :: "string option \<Rightarrow> string list \<Rightarrow> exn + string list" where
  "order_files desc fs =
     (let fs1 = sort_key length (sort fs) in
      case desc of
        None \<Rightarrow> Inr fs1
      | Some d \<Rightarrow>
          if d \<noteq> [] \<and> sublist ''original file name:'' d then
            (case orig_fields (split CHR '','' d) None of
               Inl x \<Rightarrow> Inl x
             | Inr None \<Rightarrow> Inr fs1
             | Inr (Some orig) \<Rightarrow>
                 if orig \<noteq> [] \<and> orig \<in> set fs1 then Inr (orig # remove1 orig fs1)
                 else Inr fs1)
          else Inr fs1)"

text \<open>
  The loop over the files of one walked directory. The counter goes on to the next
  directory of the walk.
\<close>

fun recurse_files :: "recur \<Rightarrow> env \<Rightarrow> string \<Rightarrow> (string \<times> fsnode) list \<Rightarrow> string list \<Rightarrow> nat
    \<Rightarrow> extraction_item \<Rightarrow> state \<Rightarrow> nat flow result option" where
  "recurse_files rec E root es [] cnt it s = Some (Inr (Next cnt), it, s)"
| "recurse_files rec E root es (filename # fs) cnt it s =
     (if cnt > RECURSION_BREADTH then Some (Inr (Return True), it\<lparr>terminate := True\<rparr>, s)
      else
        (case map_of es filename of
           Some (File d) \<Rightarrow>
             (case rec (ExtractionItem E s (path_join root filename) d (depth it + 1)) s of
                None \<Rightarrow> None
              | Some (r, new_item, s1) \<Rightarrow>
                  if r then
                    (if get_status (update_status s1 it)
                     then Some (Inr (Return True), update_status s1 it, s1)
                     else recurse_files rec E root es fs (cnt + 1) (update_status s1 it) s1)
                  else recurse_files rec E root es fs (cnt + 1) it s1)
         | _ \<Rightarrow> Some (Inl OSError, it, s)))"

text \<open>The loop over \<^verbatim>\<open>os.walk(module.extractor.directory)\<close>.\<close>

fun recurse_walk :: "recur \<Rightarrow> env \<Rightarrow> string option
    \<Rightarrow> (string \<times> string list \<times> (string \<times> fsnode) list) list \<Rightarrow> nat
    \<Rightarrow> extraction_item \<Rightarrow> state \<Rightarrow> nat flow result option" where
  "recurse_walk rec E desc [] cnt it s = Some (Inr (Next cnt), it, s)"
| "recurse_walk rec E desc ((root, fs, es) # ws) cnt it s =
     (case order_files desc fs of
        Inl x \<Rightarrow> Some (Inl x, it, s)
      | Inr fs1 \<Rightarrow>
          (case recurse_files rec E root es fs1 cnt it s of
             None \<Rightarrow> None
           | Some (Inr (Next cnt1), it1, s1) \<Rightarrow> recurse_walk rec E desc ws cnt1 it1 s1
           | Some r \<Rightarrow> Some r))"

text \<open>\<open>desc\<close> after the loop over the results of a module, which stops at the first.\<close>

definition module_desc :: "string option \<Rightarrow> scan_module \<Rightarrow> string option" where
  "module_desc desc m = (case results m of [] \<Rightarrow> desc | entry # es \<Rightarrow> Some (description entry))"

text \<open>The loop over the modules in \<^verbatim>\<open>_check_recursive\<close>.\<close>

fun recurse_modules :: "recur \<Rightarrow> env \<Rightarrow> string option \<Rightarrow> scan_module list
    \<Rightarrow> extraction_item \<Rightarrow> state \<Rightarrow> bool result option" where
  "recurse_modules rec E desc [] it s = Some (Inr False, it, s)"
| "recurse_modules rec E desc (m # ms) it s =
     (case directory m of
        None \<Rightarrow> recurse_modules rec E (module_desc desc m) ms it s
      | Some (dir, t) \<Rightarrow>
          (case io_find_rootfs dir t True of
             Inl x \<Rightarrow> Some (Inl x, it, s)
           | Inr (found, root) \<Rightarrow>
               if found then Some (Inr True, it, found_rootfs root it s)
               else
                 (case recurse_walk rec E (module_desc desc m) (os_walk dir t) 0 it s of
                    None \<Rightarrow> None
                  | Some (Inr (Next cnt), it1, s1) \<Rightarrow>
                      recurse_modules rec E (module_desc desc m) ms it1 s1
                  | Some (Inr (Return b), it1, s1) \<Rightarrow> Some (Inr b, it1, s1)
                  | Some (Inl x, it1, s1) \<Rightarrow> Some (Inl x, it1, s1))))"

definition check_recursive :: "recur \<Rightarrow> env \<Rightarrow> string \<Rightarrow> extraction_item \<Rightarrow> state
    \<Rightarrow> bool result option" where
  "check_recursive rec E fmt it s =
     (case scan E True fmt it of
        None \<Rightarrow> Some (Inl BinwalkError, it, s)
      | Some ms \<Rightarrow> recurse_modules rec E None ms it s)"

definition check_archive :: "recur \<Rightarrow> env \<Rightarrow> extraction_item \<Rightarrow> state \<Rightarrow> bool result option" where
  "check_archive rec E it s = check_recursive rec E ''archive'' it s"

definition check_compressed :: "recur \<Rightarrow> env \<Rightarrow> extraction_item \<Rightarrow> state \<Rightarrow> bool result option" where
  "check_compressed rec E it s = check_recursive rec E ''compressed'' it s"

subsection \<open>ExtractionItem.extract\<close>

text \<open>
  The loop over the six checks. An exception of a check ends the method with
  \<^verbatim>\<open>False\<close>; what the check had changed by then stays changed.
\<close>

fun analyses :: "(extraction_item \<Rightarrow> state \<Rightarrow> bool result option) list
    \<Rightarrow> extraction_item \<Rightarrow> state \<Rightarrow> (bool \<times> extraction_item \<times> state) option" where
  "analyses [] it s = Some (False, it, s)"
| "analyses (analysis # rest) it s =
     (case analysis it s of
        None \<Rightarrow> None
      | Some (Inl x, it1, s1) \<Rightarrow> Some (False, it1, s1)
      | Some (Inr changed, it1, s1) \<Rightarrow>
          if changed then
            (if get_status (update_status s1 it1) then Some (True, update_status s1 it1, s1)
             else analyses rest (update_status s1 it1) s1)
          else analyses rest it1 s1)"

definition cascade :: "recur \<Rightarrow> env \<Rightarrow> recur" where
  "cascade rec E it s =
     analyses [check_archive rec E,
               \<lambda>i z. Some (check_encryption i z),
               check_firmware rec E,
               \<lambda>i z. Some (check_kernel E i z),
               \<lambda>i z. Some (check_rootfs E i z),
               check_compressed rec E] it s"

text \<open>The method, given what the calls of \<^verbatim>\<open>extract\<close> on the items it makes do.\<close>

definition extract_body :: "recur \<Rightarrow> env \<Rightarrow> recur" where
  "extract_body rec E it s =
     (if get_status it then Some (True, it, s)
      else if depth it > RECURSION_DEPTH then Some (get_status it, it, s)
      else if checksum it \<in> set (visited s) then Some (get_status it, it, s)
      else if check_blacklist E it
        then Some (get_status it, it, s\<lparr>visited := visited s @ [checksum it]\<rparr>)
      else
        (case mkdtemp E (s\<lparr>visited := visited s @ [checksum it]\<rparr>) of (t, s1) \<Rightarrow>
           cascade rec E (it\<lparr>temp := Some t\<rparr>) s1))"

text \<open>
  \<^verbatim>\<open>ExtractionItem.extract\<close> calls itself on the items it makes; \<open>item_extract n\<close> is
  the method with at most \<open>n\<close> calls nested in each other, and \<open>None\<close> where that is
  not enough.
\<close>

fun item_extract :: "nat \<Rightarrow> env \<Rightarrow> recur" where
  "item_extract 0 E = (\<lambda>it s. None)"
| "item_extract (Suc n) E = extract_body (item_extract n E) E"

subsection \<open>Extractor.extract\<close>

text \<open>The files of the input: of a directory, in the order of \<^verbatim>\<open>os.walk\<close>.\<close>

definition input_list :: "string \<Rightarrow> fsnode option \<Rightarrow> (string \<times> fsnode option) list" where
  "input_list inp t =
     (case t of
        Some (Dir es) \<Rightarrow>
          concat (map (\<lambda>(path, fs, es'). map (\<lambda>f. (path_join path f, map_of es' f)) fs)
                      (os_walk inp (Dir es)))
      | Some (File d) \<Rightarrow> [(inp, Some (File d))]
      | None \<Rightarrow> [])"

text \<open>
  The loop over \<^verbatim>\<open>self._list\<close>. Nothing catches an exception of the constructor, so
  the job ends there (\<open>Inl\<close>).
\<close>

fun extract_items :: "nat \<Rightarrow> env \<Rightarrow> (string \<times> fsnode option) list \<Rightarrow> state \<Rightarrow> (exn + state) option" where
  "extract_items n E [] s = Some (Inr s)"
| "extract_items n E ((path, f) # rest) s =
     (case f of
        Some (File d) \<Rightarrow>
          (case item_extract n E (ExtractionItem E s path d 0) s of
             None \<Rightarrow> None
           | Some (r, it1, s1) \<Rightarrow> extract_items n E rest s1)
      | _ \<Rightarrow> Some (Inl OSError))"

definition Extractor_extract :: "nat \<Rightarrow> env \<Rightarrow> string \<Rightarrow> fsnode option \<Rightarrow> state \<Rightarrow> (exn + state) option" where
  "Extractor_extract n E inp t s = extract_items n E (input_list inp t) s"

section \<open>Notions of the specification\<close>

text \<open>
  A UNIX root: a directory with at least four subdirectories named in \<open>UNIX_DIRS\<close>.
\<close>
definition unix_root :: "(string \<times> fsnode) list \<Rightarrow> bool" where
  "unix_root es = (4 \<le> card {n \<in> set UNIX_DIRS. \<exists>sub. (n, Dir sub) \<in> set es})"

text \<open>
  Directories as a file system has them (no name twice in a directory); a directory
  after its single directory chain; and a directory that, after its chain, is a UNIX
  root.
\<close>

fun wf_fs :: "fsnode \<Rightarrow> bool" where
  "wf_fs (File d) = True"
| "wf_fs (Dir es) = (distinct (map fst es) \<and> list_all (\<lambda>(n, t). wf_fs t) es)"

definition unwrapped :: "fsnode \<Rightarrow> fsnode" where
  "unwrapped t = snd (single_chain [] t)"

fun entries :: "fsnode \<Rightarrow> (string \<times> fsnode) list" where
  "entries (Dir es) = es"
| "entries (File d) = []"

definition qualifies :: "fsnode \<Rightarrow> bool" where
  "qualifies t = (case unwrapped t of Dir es \<Rightarrow> unix_root es | File d \<Rightarrow> False)"

text \<open>
  The blacklist as the specification words it (the MIME type starts with an entry),
  and as \<^verbatim>\<open>_check_blacklist\<close> tests it (the MIME type contains an entry).
\<close>

definition MIME_BLACKLIST :: "string list" where
  "MIME_BLACKLIST = [''application/x-executable'', ''application/x-dosexec'',
     ''application/x-object'', ''application/pdf'', ''application/msword'',
     ''image/'', ''text/'', ''video/'']"

definition TYPE_BLACKLIST :: "string list" where
  "TYPE_BLACKLIST = [''executable'', ''universal binary'', ''relocatable'', ''bytecode'', ''applet'']"

definition blacklist_stated :: "string \<Rightarrow> string \<Rightarrow> string \<Rightarrow> bool" where
  "blacklist_stated mime ftype path =
     (list_ex (\<lambda>p. prefix p mime) MIME_BLACKLIST \<or> list_ex (\<lambda>p. sublist p ftype) TYPE_BLACKLIST
      \<or> suffix ''.dmg'' path)"

definition blacklist_contains :: "string \<Rightarrow> string \<Rightarrow> string \<Rightarrow> bool" where
  "blacklist_contains mime ftype path =
     (list_ex (\<lambda>p. sublist p mime) MIME_BLACKLIST \<or> list_ex (\<lambda>p. sublist p ftype) TYPE_BLACKLIST
      \<or> suffix ''.dmg'' path)"

text \<open>
  The carving of a uImage kernel as the specification words it: the \<open>N\<close> bytes from
  \<open>offset + 64\<close> on go to a fresh temporary file in the scratch directory, the file
  becomes an item of the same depth, and the answer of its \<^verbatim>\<open>extract\<close> is returned.
\<close>

definition uimage_child :: "env \<Rightarrow> entry \<Rightarrow> extraction_item \<Rightarrow> state \<Rightarrow> string \<Rightarrow> int \<Rightarrow> extraction_item" where
  "uimage_child E e it s scratch N =
     ExtractionItem E (s\<lparr>temp_count := Suc (temp_count s)\<rparr>)
       (path_join scratch (tempname E (temp_count s)))
       (take (nat N) (drop (offset e + 64) (content it))) (depth it)"

definition uimage_carved :: "recur \<Rightarrow> env \<Rightarrow> entry \<Rightarrow> extraction_item \<Rightarrow> state \<Rightarrow> string \<Rightarrow> int \<Rightarrow> bool" where
  "uimage_carved rec E e it s scratch N =
     (firmware_entry rec E e it s
        = map_option (\<lambda>(r, child, s2). (Inr (Return r), it, s2))
            (rec (uimage_child E e it s scratch N) (s\<lparr>temp_count := Suc (temp_count s)\<rparr>)))"

text \<open>
  The order of the files of a walked directory as the specification words it: by
  length, and by name among names of one length.
\<close>

definition by_length_then_name :: "string list \<Rightarrow> bool" where
  "by_length_then_name fs = sorted (map (\<lambda>f. (length f, f)) fs)"

text \<open>The number of files in the directories of a walk.\<close>

definition total_files :: "(string \<times> string list \<times> (string \<times> fsnode) list) list \<Rightarrow> nat" where
  "total_files ws = sum_list (map (\<lambda>(root, fs, es). length fs) ws)"

text \<open>
  The items \<^verbatim>\<open>_check_recursive\<close> makes of the files of a directory, and in a walk:
  the loops of \<open>recurse_files\<close> and \<open>recurse_walk\<close> again, keeping the items they
  construct instead of their answer.
\<close>

fun files_children :: "recur \<Rightarrow> env \<Rightarrow> string \<Rightarrow> (string \<times> fsnode) list \<Rightarrow> string list \<Rightarrow> nat
    \<Rightarrow> extraction_item \<Rightarrow> state \<Rightarrow> extraction_item list" where
  "files_children rec E root es [] cnt it s = []"
| "files_children rec E root es (filename # fs) cnt it s =
     (if cnt > RECURSION_BREADTH then []
      else
        (case map_of es filename of
           Some (File d) \<Rightarrow>
             ExtractionItem E s (path_join root filename) d (depth it + 1)
             # (case rec (ExtractionItem E s (path_join root filename) d (depth it + 1)) s of
                  None \<Rightarrow> []
                | Some (r, new_item, s1) \<Rightarrow>
                    if r then
                      (if get_status (update_status s1 it) then []
                       else files_children rec E root es fs (cnt + 1) (update_status s1 it) s1)
                    else files_children rec E root es fs (cnt + 1) it s1)
         | _ \<Rightarrow> []))"

fun walk_children :: "recur \<Rightarrow> env \<Rightarrow> string option
    \<Rightarrow> (string \<times> string list \<times> (string \<times> fsnode) list) list \<Rightarrow> nat
    \<Rightarrow> extraction_item \<Rightarrow> state \<Rightarrow> extraction_item list" where
  "walk_children rec E desc [] cnt it s = []"
| "walk_children rec E desc ((root, fs, es) # ws) cnt it s =
     (case order_files desc fs of
        Inl x \<Rightarrow> []
      | Inr fs1 \<Rightarrow>
          files_children rec E root es fs1 cnt it s
          @ (case recurse_files rec E root es fs1 cnt it s of
               Some (Inr (Next cnt1), it1, s1) \<Rightarrow> walk_children rec E desc ws cnt1 it1 s1
             | _ \<Rightarrow> []))"

text \<open>
  From one state to a later one, \<open>visited\<close> only grows at its end, and no checksum is
  added that is already there.
\<close>

definition grows :: "state \<Rightarrow> state \<Rightarrow> bool" where
  "grows s s' = (prefix (visited s) (visited s') \<and> (distinct (visited s) \<longrightarrow> distinct (visited s')))"

definition keeps :: "recur \<Rightarrow> bool" where
  "keeps rec = (\<forall>c z r c' z'. rec c z = Some (r, c', z') \<longrightarrow> grows z z')"


text \<open>
  The original file name a description gives: its fields are what lies between its
  commas; the name is read in the last field that holds \<open>original file name:\<close>, and
  is what stands after the first double quote of that field, up to the second (or to
  the end of the field, when there is no second).
\<close>

definition name_fields :: "string \<Rightarrow> string list" where
  "name_fields d = filter (sublist ''original file name:'') (split CHR '','' d)"

definition quoted :: "string \<Rightarrow> string option" where
  "quoted f = (if CHR 0x22 \<in> set f
               then Some (takeWhile (\<lambda>c. c \<noteq> CHR 0x22) (tl (dropWhile (\<lambda>c. c \<noteq> CHR 0x22) f)))
               else None)"

definition named_file :: "string \<Rightarrow> string option" where
  "named_file d = (case name_fields d of [] \<Rightarrow> None | f # fs \<Rightarrow> quoted (last (f # fs)))"

text \<open>
  The decimal numeral of a number, as a description writes an image size.
\<close>

definition digit_char :: "nat \<Rightarrow> char" where
  "digit_char n = ''0123456789'' ! n"

fun decimal :: "nat \<Rightarrow> string" where
  "decimal n = (if n < 10 then [digit_char n] else decimal (n div 10) @ [digit_char (n mod 10)])"

declare decimal.simps [simp del]

text \<open>
  The fields of a description: joined again with the separator between them, they
  give the description back.
\<close>

fun join :: "char \<Rightarrow> string list \<Rightarrow> string" where
  "join c [] = []"
| "join c [x] = x"
| "join c (x # y # ys) = x @ c # join c (y # ys)"

section \<open>Examples\<close>

text \<open>Libraries that find nothing in any file, and a job that has just started.\<close>

definition ex_env :: env where
  "ex_env = \<lparr>magic = (\<lambda>p c m. if m then ''application/octet-stream'' else ''data''),
            md5 = (\<lambda>c. replicate (length c) CHR ''m''),
            binwalk_scan = (\<lambda>ex fmt p c cwd. Some []),
            tempname = (\<lambda>n. ''tmp'' @ replicate n CHR ''x'')\<rparr>"

definition ex_state :: state where
  "ex_state = \<lparr>output_dir = Some ''/out'', do_kernel = True, do_rootfs = True, visited = [],
              files = (\<lambda>p. None), temp_count = 0\<rparr>"

definition ex_item :: "string \<Rightarrow> bytes \<Rightarrow> nat \<Rightarrow> extraction_item" where
  "ex_item path c d = ExtractionItem ex_env ex_state path c d"

text \<open>The same libraries, but every file is a text file, or of a type named \<open>multipart/text/plain\<close>.\<close>

definition text_env :: env where
  "text_env = ex_env\<lparr>magic := (\<lambda>p c m. if m then ''text/plain'' else ''ASCII text'')\<rparr>"

definition odd_env :: env where
  "odd_env = ex_env\<lparr>magic := (\<lambda>p c m. if m then ''multipart/text/plain'' else ''data'')\<rparr>"





text \<open>
  Libraries that find one header in every file: a uImage header with the given image
  size, or a TRX header with a kernel at offset 0.
\<close>

definition header_env :: "string \<Rightarrow> env" where
  "header_env d = ex_env\<lparr>binwalk_scan := (\<lambda>ex fmt p c cwd.
       if fmt = ''header''
       then Some [\<lparr>results = [\<lparr>description = d, offset = 0\<rparr>], directory = None\<rparr>]
       else Some [])\<rparr>"

definition uimage_desc :: "string \<Rightarrow> string" where
  "uimage_desc n = ''uImage header, header size: 64 bytes, image size: '' @ n
       @ '' bytes, OS: Linux, CPU: MIPS, image type: OS Kernel Image, compression type: lzma''"

definition trx_desc :: string where
  "trx_desc = ''TRX firmware header, little endian, kernel offset: 0x0, rootfs offset: 0x20''"

definition uimage_env :: env where
  "uimage_env = header_env (uimage_desc ''4'')"

definition empty_uimage_env :: env where
  "empty_uimage_env = header_env (uimage_desc ''0'')"

definition trx_env :: env where
  "trx_env = header_env trx_desc"

definition fw_item :: "env \<Rightarrow> extraction_item" where
  "fw_item E = (ExtractionItem E ex_state ''/in/fw.bin'' (replicate 64 0 @ [1, 2, 3, 4, 5]) 0)
                 \<lparr>temp := Some ''/tmp/scratch''\<rparr>"

text \<open>
  A module with two results; only the second restores an original file name. And a
  description that restores one.
\<close>

definition gzip_desc :: string where
  "gzip_desc = ''gzip compressed data, has original file name: '' @ [CHR 0x22] @ ''fw.bin''
       @ [CHR 0x22] @ '', from Unix''"

definition two_findings :: scan_module where
  "two_findings = \<lparr>results = [\<lparr>description = ''LZMA compressed data'', offset = 0\<rparr>,
                             \<lparr>description = gzip_desc, offset = 16\<rparr>],
                  directory = None\<rparr>"

definition some_files :: "string list" where
  "some_files = [''zz'', ''fw.bin'', ''a'', ''b.txt'', ''c'']"

definition some_dir :: fsnode where
  "some_dir = Dir (map (\<lambda>f. (f, File [1, 2])) some_files)"

text \<open>
  Libraries that unpack one file of eight bytes as an archive of seven files, or of two,
  and find nothing in any other file.
\<close>

definition seven_files :: fsnode where
  "seven_files = Dir [(''f0'', File [0]), (''f1'', File [1, 1]), (''f2'', File [2, 2, 2]),
     (''f3'', File [3, 3, 3, 3]), (''f4'', File [4, 4, 4, 4, 4]), (''f5'', File [5, 5, 5, 5, 5, 5]),
     (''f6'', File [6, 6, 6, 6, 6, 6, 6])]"

definition two_files :: fsnode where
  "two_files = Dir [(''f0'', File [0]), (''f1'', File [1, 1])]"

definition archive_env :: "fsnode \<Rightarrow> env" where
  "archive_env t = ex_env\<lparr>binwalk_scan := (\<lambda>ex fmt p c cwd.
       if fmt = ''archive'' \<and> c = [170, 1, 2, 3, 4, 5, 6, 7]
       then Some [\<lparr>results = [\<lparr>description = ''POSIX tar archive'', offset = 0\<rparr>],
                    directory = Some (''/tmp/tmp/_fw.extracted'', t)\<rparr>]
       else Some [])\<rparr>"

definition archive_item :: extraction_item where
  "archive_item = (ex_item ''/in/fw.tar'' [170, 1, 2, 3, 4, 5, 6, 7] 0)\<lparr>temp := Some ''/tmp/tmp''\<rparr>"

text \<open>
  An input directory with a disk image, a copy of it under another name, and one more
  file; and the job after the disk image was looked at.
\<close>

definition in_dir :: fsnode where
  "in_dir = Dir [(''a.dmg'', File [1, 2, 3]), (''b.bin'', File [1, 2, 3]), (''c.bin'', File [1, 2])]"

definition seen_state :: state where
  "seen_state = ex_state\<lparr>visited := [''mmm'']\<rparr>"








text \<open>
  Libraries that find, in every file, two modules of headers: in the first a result
  that is no firmware header, in the second one more of these and then a uImage header
  with the image size 4.
\<close>

definition late_uimage_scan :: "scan_module list" where
  "late_uimage_scan =
     [\<lparr>results = [\<lparr>description = ''LZMA compressed data'', offset = 8\<rparr>], directory = None\<rparr>,
      \<lparr>results = [\<lparr>description = ''CRC32 polynomial table, little endian'', offset = 16\<rparr>,
                  \<lparr>description = uimage_desc ''4'', offset = 0\<rparr>],
        directory = None\<rparr>]"

definition late_uimage_env :: env where
  "late_uimage_env = ex_env\<lparr>binwalk_scan := (\<lambda>ex fmt p c cwd.
       if fmt = ''header'' then Some late_uimage_scan else Some [])\<rparr>"

lemmas run_simps =
  ExtractionItem_def update_status_def extract_body_def get_status_def RECURSION_DEPTH_def
  RECURSION_BREADTH_def check_blacklist_def isfile_def get_kernel_path_def get_rootfs_path_def
  path_join_def sublist_code(3) suffix_to_prefix mkdtemp_def mkstemp_def cascade_def
  check_archive_def check_compressed_def check_recursive_def scan_def check_firmware_def
  check_encryption_def check_kernel_def check_rootfs_def get_kernel_status_def
  get_rootfs_status_def getsize_def

lemmas ex_simps = ex_env_def ex_state_def ex_item_def text_env_def odd_env_def

section \<open>The preflight of extract\<close>

lemma extract_deep:
  "RECURSION_DEPTH < depth it \<Longrightarrow> item_extract (Suc n) E it s = Some (get_status it, it, s)"
  by (simp add: extract_body_def)

text \<open>
  C7. An item deeper than \<open>RECURSION_DEPTH\<close> is answered with its current status, the
  item and the state untouched; so a call that gives the item a scratch directory or
  changes the state is on an item of depth at most 3.
\<close>

theorem extract_depth_bound:
  "(RECURSION_DEPTH < depth it \<longrightarrow> item_extract (Suc n) E it s = Some (get_status it, it, s))
   \<and> (item_extract k E it s = Some (r, it', s') \<and> (temp it' \<noteq> temp it \<or> s' \<noteq> s)
        \<longrightarrow> depth it \<le> 3)"
proof (intro conjI impI)
  assume "RECURSION_DEPTH < depth it"
  then show "item_extract (Suc n) E it s = Some (get_status it, it, s)" by (rule extract_deep)
next
  assume a: "item_extract k E it s = Some (r, it', s') \<and> (temp it' \<noteq> temp it \<or> s' \<noteq> s)"
  show "depth it \<le> 3"
  proof (rule ccontr)
    assume "\<not> depth it \<le> 3"
    then have d: "RECURSION_DEPTH < depth it" by (simp add: RECURSION_DEPTH_def)
    from a obtain n where "k = Suc n" by (cases k) auto
    with a extract_deep[OF d, of n E s] show False by auto
  qed
qed

lemma ex_run:
  "item_extract (Suc 0) ex_env (ex_item ''/in/fw.bin'' [1, 2, 3] 0) ex_state
     = Some (False, (ex_item ''/in/fw.bin'' [1, 2, 3] 0)\<lparr>temp := Some ''/tmp/tmp''\<rparr>,
             ex_state\<lparr>visited := [''mmm''], temp_count := 1\<rparr>)"
  by (simp add: ex_simps run_simps)

theorem extract_depth_bound_witness:
  "item_extract (Suc 0) ex_env (ex_item ''/in/fw.bin'' [1, 2, 3] 4) ex_state
     = Some (False, ex_item ''/in/fw.bin'' [1, 2, 3] 4, ex_state)
   \<and> item_extract (Suc 0) ex_env (ex_item ''/in/fw.bin'' [1, 2, 3] 0) ex_state
     = Some (False, (ex_item ''/in/fw.bin'' [1, 2, 3] 0)\<lparr>temp := Some ''/tmp/tmp''\<rparr>,
             ex_state\<lparr>visited := [''mmm''], temp_count := 1\<rparr>)
   \<and> depth (ex_item ''/in/fw.bin'' [1, 2, 3] 0) \<le> 3"
  using extract_depth_bound[of "ex_item ''/in/fw.bin'' [1, 2, 3] 4" 0 ex_env ex_state]
    extract_depth_bound[of "ex_item ''/in/fw.bin'' [1, 2, 3] 0" 0 ex_env ex_state "Suc 0" False
      "(ex_item ''/in/fw.bin'' [1, 2, 3] 0)\<lparr>temp := Some ''/tmp/tmp''\<rparr>"
      "ex_state\<lparr>visited := [''mmm''], temp_count := 1\<rparr>"]
    ex_run
  by (simp add: ex_simps run_simps)

lemma check_blacklist_contains:
  "check_blacklist E it
     = blacklist_contains (magic E (item it) (content it) True) (magic E (item it) (content it) False) (item it)"
  by (auto simp: check_blacklist_def blacklist_contains_def MIME_BLACKLIST_def TYPE_BLACKLIST_def)

text \<open>
  C3, as amended. An item that reaches the blacklist is skipped (its status returned,
  no scratch directory made) exactly when its MIME type contains an entry of the MIME
  list, or its type contains an entry of the type list, or its path ends with
  \<open>.dmg\<close>; otherwise it gets a scratch directory and the checks run.
\<close>

theorem extract_blacklist:
  "\<not> get_status it \<and> depth it \<le> RECURSION_DEPTH \<and> checksum it \<notin> set (visited s) \<longrightarrow>
     item_extract (Suc n) E it s =
       (if blacklist_contains (magic E (item it) (content it) True)
             (magic E (item it) (content it) False) (item it)
        then Some (get_status it, it, s\<lparr>visited := visited s @ [checksum it]\<rparr>)
        else cascade (item_extract n E) E
               (it\<lparr>temp := Some (path_join ''/tmp'' (tempname E (temp_count s)))\<rparr>)
               (s\<lparr>visited := visited s @ [checksum it], temp_count := Suc (temp_count s)\<rparr>))"
  by (simp add: extract_body_def check_blacklist_contains mkdtemp_def mkstemp_def)

theorem extract_blacklist_witness:
  "item_extract (Suc 0) text_env (ex_item ''/in/readme'' [1, 2, 3] 0) ex_state
     = Some (False, ex_item ''/in/readme'' [1, 2, 3] 0, ex_state\<lparr>visited := [''mmm'']\<rparr>)
   \<and> item_extract (Suc 0) ex_env (ex_item ''/in/fw.bin'' [1, 2, 3] 0) ex_state
     = cascade (item_extract 0 ex_env) ex_env
         ((ex_item ''/in/fw.bin'' [1, 2, 3] 0)\<lparr>temp := Some ''/tmp/tmp''\<rparr>)
         (ex_state\<lparr>visited := [''mmm''], temp_count := 1\<rparr>)"
  using extract_blacklist[of "ex_item ''/in/readme'' [1, 2, 3] 0" ex_state 0 text_env]
    extract_blacklist[of "ex_item ''/in/fw.bin'' [1, 2, 3] 0" ex_state 0 ex_env]
  by (simp add: ex_simps ExtractionItem_def update_status_def get_status_def RECURSION_DEPTH_def
      blacklist_contains_def MIME_BLACKLIST_def TYPE_BLACKLIST_def sublist_code(3) suffix_to_prefix
      isfile_def get_kernel_path_def get_rootfs_path_def path_join_def del: item_extract.simps)

text \<open>
  C3, as stated, fails: a file of MIME type \<open>multipart/text/plain\<close> reaches the
  blacklist and is skipped, though its MIME type starts with no entry of the list.
\<close>

theorem extract_blacklist_counterexample:
  "\<not> get_status (ex_item ''/in/fw.bin'' [1, 2, 3] 0)
   \<and> depth (ex_item ''/in/fw.bin'' [1, 2, 3] 0) \<le> RECURSION_DEPTH
   \<and> checksum (ex_item ''/in/fw.bin'' [1, 2, 3] 0) \<notin> set (visited ex_state)
   \<and> \<not> blacklist_stated (magic odd_env ''/in/fw.bin'' [1, 2, 3] True)
         (magic odd_env ''/in/fw.bin'' [1, 2, 3] False) ''/in/fw.bin''
   \<and> item_extract (Suc 0) odd_env (ex_item ''/in/fw.bin'' [1, 2, 3] 0) ex_state
       = Some (False, ex_item ''/in/fw.bin'' [1, 2, 3] 0, ex_state\<lparr>visited := [''mmm'']\<rparr>)"
  by (simp add: ex_simps run_simps blacklist_stated_def MIME_BLACKLIST_def TYPE_BLACKLIST_def)

section \<open>The root detector\<close>

lemma isdir_in_iff:
  assumes "distinct (map fst es)"
  shows "isdir_in es n \<longleftrightarrow> (\<exists>sub. (n, Dir sub) \<in> set es)"
proof
  assume "isdir_in es n"
  then obtain t where t: "map_of es n = Some t" "isdir t"
    by (auto simp: isdir_in_def split: option.splits)
  then obtain sub where "t = Dir sub" by (cases t) auto
  with t show "\<exists>sub. (n, Dir sub) \<in> set es" by (auto dest: map_of_SomeD)
next
  assume "\<exists>sub. (n, Dir sub) \<in> set es"
  then obtain sub where "(n, Dir sub) \<in> set es" ..
  with assms have "map_of es n = Some (Dir sub)" by simp
  then show "isdir_in es n" by (simp add: isdir_in_def)
qed

lemma unix_count_card:
  assumes "distinct (map fst es)"
  shows "unix_count es = card {n \<in> set UNIX_DIRS. \<exists>sub. (n, Dir sub) \<in> set es}"
proof -
  have "unix_count es = card ({n. n \<in> set UNIX_DIRS \<and> isdir_in es n} \<inter> set (map fst es))"
    unfolding unix_count_def using assms by (rule distinct_length_filter)
  also have "{n. n \<in> set UNIX_DIRS \<and> isdir_in es n} \<inter> set (map fst es)
      = {n \<in> set UNIX_DIRS. \<exists>sub. (n, Dir sub) \<in> set es}"
    using assms by (auto simp: isdir_in_iff intro: rev_image_eqI)
  finally show ?thesis .
qed

lemma single_chain_many:
  assumes "2 \<le> length es"
  shows "single_chain p (Dir es) = (p, Dir es)"
proof (cases es)
  case Nil
  then show ?thesis by simp
next
  case (Cons e es')
  with assms obtain e' es'' where "es' = e' # es''" by (cases es') auto
  with Cons show ?thesis by (cases e; cases "snd e") auto
qed

lemma unix_root_length:
  assumes "unix_root es"
  shows "4 \<le> length es"
proof -
  have "{n \<in> set UNIX_DIRS. \<exists>sub. (n, Dir sub) \<in> set es} \<subseteq> fst ` set es" by force
  then have "card {n \<in> set UNIX_DIRS. \<exists>sub. (n, Dir sub) \<in> set es} \<le> card (fst ` set es)"
    by (intro card_mono) auto
  also have "\<dots> \<le> length es" by (metis card_length length_map set_map)
  finally show ?thesis using assms by (simp add: unix_root_def)
qed

lemma io_find_rootfs_here:
  assumes "distinct (map fst es)" "unix_root es"
  shows "io_find_rootfs D (Dir es) recurse = Inr (True, D)"
  using assms unix_root_length[OF assms(2)]
  by (simp add: io_find_rootfs.simps single_chain_many unix_count_card unix_root_def UNIX_THRESHOLD_def)


lemma single_chain_snd_any: "snd (single_chain p t) = snd (single_chain q t)"
proof (induction p t arbitrary: q rule: single_chain.induct)
  case (1 path name es)
  from "1.IH"[of "path_join q name"] show ?case by simp
qed simp_all

lemma single_chain_snd: "snd (single_chain p t) = unwrapped t"
  unfolding unwrapped_def by (rule single_chain_snd_any)

lemma single_chain_isdir: "isdir t \<Longrightarrow> isdir (snd (single_chain p t))"
  by (induction p t rule: single_chain.induct) simp_all

lemma single_chain_wf: "wf_fs t \<Longrightarrow> wf_fs (snd (single_chain p t))"
  by (induction p t rule: single_chain.induct) simp_all

lemma first_hit_none:
  "(\<And>r. r \<in> set rs \<Longrightarrow> \<exists>p. r = Inr (False, p)) \<Longrightarrow> first_hit rs = None"
proof (induction rs rule: first_hit.induct)
  case 1
  show ?case by simp
next
  case (2 e rs)
  from "2.prems"[of "Inl e"] show ?case by simp
next
  case (3 found p rs)
  from "3.prems"[of "Inr (found, p)"] have nf: "\<not> found" by simp
  with 3 show ?case by simp
qed

lemma io_find_rootfs_chain:
  assumes "single_chain D t = (p, Dir es)" "distinct (map fst es)" "unix_root es"
  shows "io_find_rootfs D t recurse = Inr (True, p)"
  using assms
  by (simp add: io_find_rootfs.simps unix_count_card unix_root_def UNIX_THRESHOLD_def)

lemma io_find_rootfs_flat_miss:
  assumes "wf_fs t" "isdir t" "\<not> qualifies t"
  shows "io_find_rootfs D t False = Inr (False, D)"
proof -
  obtain p u where sc: "single_chain D t = (p, u)" by (cases "single_chain D t")
  with single_chain_isdir[OF assms(2), of D] obtain es where u: "u = Dir es"
    by (cases u) auto
  from sc u have unw: "unwrapped t = Dir es" using single_chain_snd[of D t] by simp
  from single_chain_wf[OF assms(1), of D] sc u have d: "distinct (map fst es)" by simp
  from assms(3) unw have "\<not> unix_root es" by (simp add: qualifies_def)
  with d have "unix_count es < 4" by (simp add: unix_count_card unix_root_def)
  with sc u show ?thesis by (simp add: io_find_rootfs.simps UNIX_THRESHOLD_def)
qed

lemma io_find_rootfs_miss:
  assumes "wf_fs t" "isdir t" "\<not> qualifies t"
    and subs: "recurse \<Longrightarrow> \<forall>(n, sub) \<in> set (entries (unwrapped t)). \<not> qualifies sub"
  shows "io_find_rootfs D t recurse = Inr (False, D)"
proof (cases recurse)
  case False
  with assms show ?thesis by (simp add: io_find_rootfs_flat_miss)
next
  case True
  obtain p u where sc: "single_chain D t = (p, u)" by (cases "single_chain D t")
  with single_chain_isdir[OF assms(2), of D] obtain es where u: "u = Dir es"
    by (cases u) auto
  from sc u have unw: "unwrapped t = Dir es" using single_chain_snd[of D t] by simp
  from single_chain_wf[OF assms(1), of D] sc u
  have d: "distinct (map fst es)" and w: "list_all (\<lambda>(n, t). wf_fs t) es" by simp_all
  from assms(3) unw have "\<not> unix_root es" by (simp add: qualifies_def)
  with d have cnt: "unix_count es < 4" by (simp add: unix_count_card unix_root_def)
  let ?f = "\<lambda>subdir. case map_of es subdir of
                 Some sub \<Rightarrow> io_find_rootfs (path_join p subdir) sub False
               | None \<Rightarrow> Inl OSError"
  have "first_hit (map ?f (filter (isdir_in es) (map fst es))) = None"
  proof (rule first_hit_none)
    fix r assume "r \<in> set (map ?f (filter (isdir_in es) (map fst es)))"
    then obtain n where n: "n \<in> fst ` set es" "isdir_in es n" and r: "r = ?f n" by auto
    from n(2) obtain sub where sub: "map_of es n = Some sub" "isdir sub"
      by (auto simp: isdir_in_def split: option.splits)
    then have mem: "(n, sub) \<in> set es" by (auto dest: map_of_SomeD)
    with w have "wf_fs sub" by (auto simp: list_all_iff)
    moreover from subs[OF True] unw mem have "\<not> qualifies sub" by auto
    ultimately have "io_find_rootfs (path_join p n) sub False = Inr (False, path_join p n)"
      using sub(2) by (simp add: io_find_rootfs_flat_miss)
    with r sub show "\<exists>q. r = Inr (False, q)" by simp
  qed
  with sc u cnt True show ?thesis by (simp add: io_find_rootfs.simps UNIX_THRESHOLD_def)
qed

text \<open>
  C4. A directory with at least four subdirectories of \<open>UNIX_DIRS\<close> is returned as
  the root; a chain \<open>D/a/b/C\<close> of single directories leads to \<open>C\<close>; and when neither
  the directory (after its chain) nor, with \<open>recurse\<close>, any of its subdirectories
  (after theirs) is a UNIX root, the answer is \<open>False\<close> with the start path.
\<close>

theorem io_find_rootfs_detects:
  "(wf_fs (Dir es) \<and> unix_root es \<longrightarrow> io_find_rootfs D (Dir es) recurse = Inr (True, D))
   \<and> (wf_fs (Dir es) \<and> unix_root es \<longrightarrow>
        io_find_rootfs D (Dir [(a, Dir [(b, Dir [(c, Dir es)])])]) recurse
          = Inr (True, path_join (path_join (path_join D a) b) c))
   \<and> (wf_fs t \<and> isdir t \<and> \<not> qualifies t
        \<and> (recurse \<longrightarrow> (\<forall>(n, sub) \<in> set (entries (unwrapped t)). \<not> qualifies sub))
      \<longrightarrow> io_find_rootfs D t recurse = Inr (False, D))"
proof (intro conjI impI)
  assume a: "wf_fs (Dir es) \<and> unix_root es"
  then show "io_find_rootfs D (Dir es) recurse = Inr (True, D)"
    by (simp add: io_find_rootfs_here)
  from a have "2 \<le> length es" using unix_root_length[of es] by simp
  then have "single_chain D (Dir [(a, Dir [(b, Dir [(c, Dir es)])])])
      = (path_join (path_join (path_join D a) b) c, Dir es)"
    by (simp add: single_chain_many)
  with a show "io_find_rootfs D (Dir [(a, Dir [(b, Dir [(c, Dir es)])])]) recurse
      = Inr (True, path_join (path_join (path_join D a) b) c)"
    by (simp add: io_find_rootfs_chain)
next
  assume "wf_fs t \<and> isdir t \<and> \<not> qualifies t
        \<and> (recurse \<longrightarrow> (\<forall>(n, sub) \<in> set (entries (unwrapped t)). \<not> qualifies sub))"
  then show "io_find_rootfs D t recurse = Inr (False, D)"
    by (intro io_find_rootfs_miss) auto
qed


lemma unix_root_eval:
  "unix_root es = (4 \<le> length (remdups (filter (\<lambda>n. list_ex (\<lambda>(m, t). m = n \<and> isdir t) es) UNIX_DIRS)))"
proof -
  have "{n \<in> set UNIX_DIRS. \<exists>sub. (n, Dir sub) \<in> set es}
      = set (filter (\<lambda>n. list_ex (\<lambda>(m, t). m = n \<and> isdir t) es) UNIX_DIRS)"
  proof -
    have "(\<exists>sub. (n, Dir sub) \<in> set es) = list_ex (\<lambda>(m, t). m = n \<and> isdir t) es" for n
    proof
      assume "\<exists>sub. (n, Dir sub) \<in> set es"
      then show "list_ex (\<lambda>(m, t). m = n \<and> isdir t) es" by (force simp: list_ex_iff)
    next
      assume "list_ex (\<lambda>(m, t). m = n \<and> isdir t) es"
      then obtain t where "(n, t) \<in> set es" "isdir t" by (auto simp: list_ex_iff)
      then show "\<exists>sub. (n, Dir sub) \<in> set es" by (cases t) auto
    qed
    then show ?thesis by auto
  qed
  then show ?thesis by (simp add: unix_root_def length_remdups_card_conv)
qed

theorem io_find_rootfs_detects_witness:
  "io_find_rootfs ''/x'' (Dir [(''bin'', Dir []), (''etc'', Dir []), (''lib'', Dir []), (''usr'', Dir [])]) True
     = Inr (True, ''/x'')
   \<and> io_find_rootfs ''/x''
        (Dir [(''a'', Dir [(''b'', Dir [(''C'',
           Dir [(''bin'', Dir []), (''etc'', Dir []), (''lib'', Dir []), (''usr'', Dir [])])])])]) True
     = Inr (True, ''/x/a/b/C'')
   \<and> io_find_rootfs ''/x'' (Dir [(''f'', File []), (''d'', Dir [(''bin'', Dir [])])]) True
     = Inr (False, ''/x'')"
  using io_find_rootfs_detects[of "[(''bin'', Dir []), (''etc'', Dir []), (''lib'', Dir []), (''usr'', Dir [])]"
      "''/x''" True "''a''" "''b''" "''C''" "Dir [(''f'', File []), (''d'', Dir [(''bin'', Dir [])])]"]
  by (simp add: unix_root_eval qualifies_def unwrapped_def UNIX_DIRS_def path_join_def)

section \<open>The kernel check\<close>







section \<open>Carving\<close>

lemma py_int_digits_nonneg:
  assumes "py_int (filter isdigit stmt) 10 = Inr v"
  shows "0 \<le> v"
proof (cases "filter isdigit stmt")
  case Nil
  with assms show ?thesis by (simp add: py_int_def strip_prefix16_def)
next
  case (Cons c r)
  then have "c \<in> set (filter isdigit stmt)" by simp
  then have c: "isdigit c" by simp
  then have ns: "\<not> isspace c" and np: "c \<noteq> CHR ''+''" and nm: "c \<noteq> CHR ''-''"
    by (auto simp: isdigit_def isspace_def less_eq_char_def)
  from assms Cons ns np nm show ?thesis
    by (auto simp: py_int_def Let_def split: if_splits option.splits)
qed

lemma uimage_size_nonneg: "uimage_size stmts k = Inr N \<Longrightarrow> 0 \<le> k \<Longrightarrow> 0 \<le> N"
proof (induction stmts arbitrary: k)
  case Nil
  then show ?case by simp
next
  case (Cons stmt stmts)
  show ?case
  proof (cases "sublist ''image size:'' stmt")
    case True
    with Cons.prems obtain v where v: "py_int (filter isdigit stmt) 10 = Inr v"
      and r: "uimage_size stmts v = Inr N"
      by (auto split: sum.splits)
    from py_int_digits_nonneg[OF v] Cons.IH[OF r] show ?thesis by simp
  next
    case False
    with Cons show ?thesis by simp
  qed
qed

lemma carve_inside:
  "0 \<le> off \<Longrightarrow> 0 < sz \<Longrightarrow> temp it = Some scratch \<Longrightarrow>
   carve rec E off sz it s
     = map_option (\<lambda>(r, child, s2). (Inr r, s2))
         (rec (ExtractionItem E (s\<lparr>temp_count := Suc (temp_count s)\<rparr>)
                 (path_join scratch (tempname E (temp_count s)))
                 (take (nat sz) (drop (nat off) (content it))) (depth it))
              (s\<lparr>temp_count := Suc (temp_count s)\<rparr>))"
  by (auto simp: carve_def mkstemp_def io_dd_def split: option.splits)

lemma ExtractionItem_fields [simp]:
  "depth (ExtractionItem E s p c d) = d"
  "content (ExtractionItem E s p c d) = c"
  "item (ExtractionItem E s p c d) = p"
  "checksum (ExtractionItem E s p c d) = md5 E c"
  "temp (ExtractionItem E s p c d) = None"
  "terminate (ExtractionItem E s p c d) = False"
  by (simp_all add: ExtractionItem_def update_status_def Let_def)

lemmas parse_simps =
  py_int_def strip_prefix16_def digit_value_def isdigit_def isspace_def hex_field_def
  trx_sizes_def

lemmas fw_simps =
  header_env_def uimage_desc_def trx_desc_def uimage_env_def empty_uimage_env_def trx_env_def
  fw_item_def

text \<open>
  C2. With no lengths given, \<open>kernel_size\<close> and \<open>rootfs_size\<close> are inferred from the
  offsets only when the kernel offset is not 0: the test compares \<open>kernel_offset\<close> with
  \<open>rootfs_size\<close>, which is 0 there. For \<open>kernel offset: 0x0, rootfs offset: 0x20\<close> in a
  file of 69 bytes both lengths stay 0, and the entry is passed over without carving.
\<close>

theorem firmware_trx_kernel_offset_zero:
  "trx_sizes (kernel_offset, 0, rootfs_offset, 0) filesize
     = (if kernel_offset = 0 then (0, 0)
        else (rootfs_offset - kernel_offset, filesize - rootfs_offset))
   \<and> trx_fields (split CHR '','' trx_desc) (0, 0, 0, 0) = Inr (0, 0, 32, 0)
   \<and> getsize (fw_item trx_env) = 69
   \<and> firmware_entry rec trx_env \<lparr>description = trx_desc, offset = 0\<rparr> (fw_item trx_env) ex_state
       = Some (Inr (Next ()), fw_item trx_env, ex_state)"
  by (simp add: fw_simps ex_simps run_simps parse_simps firmware_entry_def
      del: ExtractionItem_fields)

lemma digit_char_cases:
  assumes "n < 10"
  shows "digit_char n \<in> set ''0123456789'' \<and> of_char (digit_char n) = 48 + n"
proof -
  from assms have "n \<in> {0, 1, 2, 3, 4, 5, 6, 7, 8, 9}" by auto
  then show ?thesis by (auto simp: digit_char_def)
qed

lemma digit_char_isdigit: "n < 10 \<Longrightarrow> isdigit (digit_char n)"
  using digit_char_cases[of n] by (auto simp: isdigit_def less_eq_char_def)

lemma digit_char_value: "n < 10 \<Longrightarrow> digit_value (digit_char n) = Some n"
  using digit_char_cases[of n] by (auto simp: digit_value_def less_eq_char_def)

lemma decimal_digits: "list_all isdigit (decimal n) \<and> decimal n \<noteq> []"
proof (induction n rule: decimal.induct)
  case (1 n)
  show ?case
  proof (cases "n < 10")
    case True
    then show ?thesis by (simp add: decimal.simps[of n] digit_char_isdigit)
  next
    case False
    with 1 show ?thesis by (simp add: decimal.simps[of n] digit_char_isdigit)
  qed
qed

lemma scan_digits_snoc:
  "list_all isdigit ds \<Longrightarrow> scan_digits 10 ds acc k prev = Some (v, k', False, []) \<Longrightarrow> d < 10 \<Longrightarrow>
   scan_digits 10 (ds @ [digit_char d]) acc k prev = Some (v * 10 + d, Suc k', False, [])"
proof (induction ds arbitrary: acc k prev)
  case Nil
  from Nil.prems(3) digit_char_cases[of d] have "digit_char d \<noteq> CHR ''_''" by auto
  with Nil digit_char_value[of d] show ?case by simp
next
  case (Cons c cs)
  from Cons.prems(1) have c: "isdigit c" by simp
  then have nu: "c \<noteq> CHR ''_''" by (auto simp: isdigit_def less_eq_char_def)
  from c obtain x where x: "digit_value c = Some x" "x < 10"
    by (auto simp: isdigit_def digit_value_def less_eq_char_def)
  from Cons.prems nu x have "scan_digits 10 cs (acc * 10 + x) (Suc k) False = Some (v, k', False, [])"
    by simp
  with Cons.IH[of "acc * 10 + x" "Suc k" False] Cons.prems nu x show ?case by simp
qed

lemma scan_digits_decimal:
  "\<exists>k. scan_digits 10 (decimal n) 0 0 False = Some (n, Suc k, False, [])"
proof (induction n rule: decimal.induct)
  case (1 n)
  show ?case
  proof (cases "n < 10")
    case True
    then show ?thesis
      using digit_char_value[of n] digit_char_cases[of n]
      by (auto simp: decimal.simps[of n])
  next
    case False
    with 1 obtain k where k: "scan_digits 10 (decimal (n div 10)) 0 0 False
        = Some (n div 10, Suc k, False, [])" by auto
    have "scan_digits 10 (decimal (n div 10) @ [digit_char (n mod 10)]) 0 0 False
        = Some (n div 10 * 10 + n mod 10, Suc (Suc k), False, [])"
      using decimal_digits[of "n div 10"] k by (intro scan_digits_snoc) simp_all
    with False show ?thesis by (simp add: decimal.simps[of n])
  qed
qed

lemma py_int_decimal: "py_int (decimal n) 10 = Inr (int n)"
proof -
  from decimal_digits[of n] obtain c r where cr: "decimal n = c # r" and c: "isdigit c"
    by (cases "decimal n") auto
  from c have ns: "\<not> isspace c" and np: "c \<noteq> CHR ''+''" and nm: "c \<noteq> CHR ''-''"
    and nu: "c \<noteq> CHR ''_''"
    by (auto simp: isdigit_def isspace_def less_eq_char_def)
  from scan_digits_decimal[of n] obtain k where
    "scan_digits 10 (decimal n) 0 0 False = Some (n, Suc k, False, [])" by blast
  with cr have sd: "scan_digits 10 (c # r) 0 0 False = Some (n, Suc k, False, [])" by simp
  have sp: "strip_prefix16 10 (c # r) = c # r"
    by (simp add: strip_prefix16_def split: list.splits)
  from ns np nm nu show ?thesis
    unfolding py_int_def cr
    by (simp add: sp sd Let_def del: scan_digits.simps)
qed

lemma filter_isdigit_decimal:
  "\<not> list_ex isdigit (pre @ post) \<Longrightarrow> filter isdigit (pre @ decimal n @ post) = decimal n"
proof -
  assume a: "\<not> list_ex isdigit (pre @ post)"
  then have "filter isdigit pre = []" "filter isdigit post = []"
    by (auto simp: list_ex_iff filter_empty_conv)
  moreover have "filter isdigit (decimal n) = decimal n"
    using decimal_digits[of n] by (simp add: list_all_iff)
  ultimately show ?thesis by simp
qed

lemma uimage_size_none:
  "filter (sublist ''image size:'') stmts = [] \<Longrightarrow> uimage_size stmts k = Inr k"
  by (induction stmts arbitrary: k) (auto split: if_splits)

lemma uimage_size_one:
  "filter (sublist ''image size:'') stmts = [f] \<Longrightarrow> py_int (filter isdigit f) 10 = Inr v \<Longrightarrow>
   uimage_size stmts k = Inr v"
proof (induction stmts arbitrary: k)
  case Nil
  then show ?case by simp
next
  case (Cons stmt stmts)
  show ?case
  proof (cases "sublist ''image size:'' stmt")
    case True
    with Cons.prems have "stmt = f" "filter (sublist ''image size:'') stmts = []" by simp_all
    with True Cons.prems(2) show ?thesis by (simp add: uimage_size_none)
  next
    case False
    with Cons show ?thesis by simp
  qed
qed

lemma uimage_size_declared:
  "filter (sublist ''image size:'') (split CHR '','' d) = [pre @ decimal N @ post] \<Longrightarrow>
   \<not> list_ex isdigit (pre @ post) \<Longrightarrow>
   uimage_size (split CHR '','' d) 0 = Inr (int N)"
proof -
  assume f: "filter (sublist ''image size:'') (split CHR '','' d) = [pre @ decimal N @ post]"
    and nd: "\<not> list_ex isdigit (pre @ post)"
  from nd have "filter isdigit (pre @ decimal N @ post) = decimal N"
    by (rule filter_isdigit_decimal)
  then have "py_int (filter isdigit (pre @ decimal N @ post)) 10 = Inr (int N)"
    by (simp only: py_int_decimal)
  with f show ?thesis by (rule uimage_size_one)
qed

lemma firmware_entry_next:
  "firmware_entry rec E x it s = Some (Inr (Next u), it1, s1) \<Longrightarrow> it1 = it \<and> s1 = s"
  by (auto simp: firmware_entry_def split: if_splits sum.splits option.splits prod.splits flow.splits)

lemma firmware_entries_skip:
  "\<forall>x \<in> set es1. firmware_entry rec E x it s = Some (Inr (Next ()), it, s) \<Longrightarrow>
   firmware_entries rec E (es1 @ es) it s = firmware_entries rec E es it s"
  by (induction es1) simp_all

lemma firmware_modules_skip:
  "\<forall>x \<in> set (concat (map results ms1)). firmware_entry rec E x it s = Some (Inr (Next ()), it, s) \<Longrightarrow>
   firmware_modules rec E (ms1 @ ms) it s = firmware_modules rec E ms it s"
proof (induction ms1)
  case Nil
  show ?case by simp
next
  case (Cons m ms1)
  from Cons.prems have "\<forall>x \<in> set (results m). firmware_entry rec E x it s = Some (Inr (Next ()), it, s)"
    by simp
  from firmware_entries_skip[OF this, of "[]"]
  have "firmware_entries rec E (results m) it s = Some (Inr (Next ()), it, s)" by simp
  with Cons show ?case by simp
qed

text \<open>
  C5, as amended. A uImage header with \<open>OS Kernel Image\<close> declares the image size \<open>N\<close>
  when the one field of its description that holds \<open>image size:\<close> has the decimal
  numeral of \<open>N\<close> and no other digit. For such a result, with the kernel not yet done:
  when \<open>N\<close> is not 0 and \<open>offset + 64 + N\<close> is within the file, the \<open>N\<close> bytes from
  \<open>offset + 64\<close> on are carved into a fresh temporary file of the scratch directory,
  the item made of it has the depth of its parent, and the answer of its \<^verbatim>\<open>extract\<close>
  is the answer of the loop body; it is the answer of \<^verbatim>\<open>_check_firmware\<close> wherever the
  result stands in the scan, as long as the results before it are passed over. When
  \<open>N\<close> is 0, or \<open>offset + 64 + N\<close> is beyond the file, the result is passed over and
  the loop goes on with the next. A result that is passed over leaves the item and the
  job as they were; a result that is neither a uImage header nor has both offsets of a
  TRX header is passed over.
\<close>

theorem firmware_uimage_carve:
  "(sublist ''uImage header'' (description e) \<and> sublist ''OS Kernel Image'' (description e)
    \<and> \<not> get_kernel_status it \<and> temp it = Some scratch
    \<and> filter (sublist ''image size:'') (split CHR '','' (description e)) = [pre @ decimal N @ post]
    \<and> \<not> list_ex isdigit (pre @ post) \<longrightarrow>
      (N \<noteq> 0 \<and> int (offset e) + 64 + int N \<le> getsize it \<longrightarrow>
         uimage_carved rec E e it s scratch (int N)
         \<and> content (uimage_child E e it s scratch (int N)) = take N (drop (offset e + 64) (content it))
         \<and> length (content (uimage_child E e it s scratch (int N))) = N
         \<and> depth (uimage_child E e it s scratch (int N)) = depth it
         \<and> item (uimage_child E e it s scratch (int N)) = path_join scratch (tempname E (temp_count s))
         \<and> (scan E False ''header'' it = Some (ms1 @ m # ms2) \<and> results m = es1 @ e # es2
              \<and> (\<forall>x \<in> set (concat (map results ms1) @ es1).
                    firmware_entry rec E x it s = Some (Inr (Next ()), it, s)) \<longrightarrow>
              check_firmware rec E it s
                = map_option (\<lambda>(r, child, s2). (Inr r, it, s2))
                    (rec (uimage_child E e it s scratch (int N)) (s\<lparr>temp_count := Suc (temp_count s)\<rparr>))))
      \<and> (N = 0 \<or> getsize it < int (offset e) + 64 + int N \<longrightarrow>
           firmware_entry rec E e it s = Some (Inr (Next ()), it, s)
           \<and> firmware_entries rec E (e # es) it s = firmware_entries rec E es it s))
   \<and> (\<not> sublist ''uImage header'' (description x)
        \<and> \<not> (sublist ''rootfs offset: '' (description x) \<and> sublist ''kernel offset: '' (description x)) \<longrightarrow>
        firmware_entry rec E x it s = Some (Inr (Next ()), it, s))
   \<and> (firmware_entry rec E x it s = Some (Inr (Next u), it1, s1) \<longrightarrow> it1 = it \<and> s1 = s)"
proof (intro conjI)
  show "sublist ''uImage header'' (description e) \<and> sublist ''OS Kernel Image'' (description e)
    \<and> \<not> get_kernel_status it \<and> temp it = Some scratch
    \<and> filter (sublist ''image size:'') (split CHR '','' (description e)) = [pre @ decimal N @ post]
    \<and> \<not> list_ex isdigit (pre @ post) \<longrightarrow>
      (N \<noteq> 0 \<and> int (offset e) + 64 + int N \<le> getsize it \<longrightarrow>
         uimage_carved rec E e it s scratch (int N)
         \<and> content (uimage_child E e it s scratch (int N)) = take N (drop (offset e + 64) (content it))
         \<and> length (content (uimage_child E e it s scratch (int N))) = N
         \<and> depth (uimage_child E e it s scratch (int N)) = depth it
         \<and> item (uimage_child E e it s scratch (int N)) = path_join scratch (tempname E (temp_count s))
         \<and> (scan E False ''header'' it = Some (ms1 @ m # ms2) \<and> results m = es1 @ e # es2
              \<and> (\<forall>x \<in> set (concat (map results ms1) @ es1).
                    firmware_entry rec E x it s = Some (Inr (Next ()), it, s)) \<longrightarrow>
              check_firmware rec E it s
                = map_option (\<lambda>(r, child, s2). (Inr r, it, s2))
                    (rec (uimage_child E e it s scratch (int N)) (s\<lparr>temp_count := Suc (temp_count s)\<rparr>))))
      \<and> (N = 0 \<or> getsize it < int (offset e) + 64 + int N \<longrightarrow>
           firmware_entry rec E e it s = Some (Inr (Next ()), it, s)
           \<and> firmware_entries rec E (e # es) it s = firmware_entries rec E es it s)"
  proof (intro impI)
    assume a: "sublist ''uImage header'' (description e) \<and> sublist ''OS Kernel Image'' (description e)
      \<and> \<not> get_kernel_status it \<and> temp it = Some scratch
      \<and> filter (sublist ''image size:'') (split CHR '','' (description e)) = [pre @ decimal N @ post]
      \<and> \<not> list_ex isdigit (pre @ post)"
    then have sz: "uimage_size (split CHR '','' (description e)) 0 = Inr (int N)"
      by (intro uimage_size_declared[of _ pre N post]) simp_all
    have fits: "uimage_carved rec E e it s scratch (int N)
         \<and> content (uimage_child E e it s scratch (int N)) = take N (drop (offset e + 64) (content it))
         \<and> length (content (uimage_child E e it s scratch (int N))) = N
         \<and> depth (uimage_child E e it s scratch (int N)) = depth it
         \<and> item (uimage_child E e it s scratch (int N)) = path_join scratch (tempname E (temp_count s))
         \<and> (scan E False ''header'' it = Some (ms1 @ m # ms2) \<and> results m = es1 @ e # es2
              \<and> (\<forall>x \<in> set (concat (map results ms1) @ es1).
                    firmware_entry rec E x it s = Some (Inr (Next ()), it, s)) \<longrightarrow>
              check_firmware rec E it s
                = map_option (\<lambda>(r, child, s2). (Inr r, it, s2))
                    (rec (uimage_child E e it s scratch (int N)) (s\<lparr>temp_count := Suc (temp_count s)\<rparr>)))"
      if b: "N \<noteq> 0 \<and> int (offset e) + 64 + int N \<le> getsize it"
    proof -
      from b have pos: "0 < int N" by simp
      have off: "nat (int (offset e) + 64) = offset e + 64" by simp
      from a pos have c: "carve rec E (int (offset e) + 64) (int N) it s
          = map_option (\<lambda>(r, child, s2). (Inr r, s2))
              (rec (uimage_child E e it s scratch (int N)) (s\<lparr>temp_count := Suc (temp_count s)\<rparr>))"
        unfolding uimage_child_def
        using carve_inside[of "int (offset e) + 64" "int N" it scratch rec E s]
        by (simp only: off)
      from a b sz have fe: "firmware_entry rec E e it s
          = (case carve rec E (int (offset e) + 64) (int N) it s of
               None \<Rightarrow> None
             | Some (Inl x, s1) \<Rightarrow> Some (Inl x, it, s1)
             | Some (Inr r, s1) \<Rightarrow> Some (Inr (Return r), it, s1))"
        by (simp add: firmware_entry_def)
      have carved: "uimage_carved rec E e it s scratch (int N)"
        unfolding uimage_carved_def fe c by (auto split: option.splits)
      have len: "length (content (uimage_child E e it s scratch (int N))) = N"
      proof -
        from b have "N \<le> length (content it) - (offset e + 64)"
          unfolding getsize_def by linarith
        then show ?thesis by (simp add: uimage_child_def min_absorb2)
      qed
      have phase: "check_firmware rec E it s
                = map_option (\<lambda>(r, child, s2). (Inr r, it, s2))
                    (rec (uimage_child E e it s scratch (int N)) (s\<lparr>temp_count := Suc (temp_count s)\<rparr>))"
        if r: "scan E False ''header'' it = Some (ms1 @ m # ms2) \<and> results m = es1 @ e # es2
              \<and> (\<forall>x \<in> set (concat (map results ms1) @ es1).
                    firmware_entry rec E x it s = Some (Inr (Next ()), it, s))"
      proof -
        from r have "firmware_modules rec E (ms1 @ m # ms2) it s = firmware_modules rec E (m # ms2) it s"
          by (intro firmware_modules_skip) simp
        moreover from r have "firmware_entries rec E (es1 @ e # es2) it s
            = firmware_entries rec E (e # es2) it s"
          by (intro firmware_entries_skip) simp
        ultimately show ?thesis
          using r carved by (auto simp: check_firmware_def uimage_carved_def split: option.splits)
      qed
      from carved len phase show ?thesis by (simp add: uimage_child_def)
    qed
    have skip: "firmware_entry rec E e it s = Some (Inr (Next ()), it, s)
           \<and> firmware_entries rec E (e # es) it s = firmware_entries rec E es it s"
      if b: "N = 0 \<or> getsize it < int (offset e) + 64 + int N"
    proof -
      from a b sz have "firmware_entry rec E e it s = Some (Inr (Next ()), it, s)"
        by (auto simp: firmware_entry_def)
      then show ?thesis by simp
    qed
    from fits skip show "(N \<noteq> 0 \<and> int (offset e) + 64 + int N \<le> getsize it \<longrightarrow>
         uimage_carved rec E e it s scratch (int N)
         \<and> content (uimage_child E e it s scratch (int N)) = take N (drop (offset e + 64) (content it))
         \<and> length (content (uimage_child E e it s scratch (int N))) = N
         \<and> depth (uimage_child E e it s scratch (int N)) = depth it
         \<and> item (uimage_child E e it s scratch (int N)) = path_join scratch (tempname E (temp_count s))
         \<and> (scan E False ''header'' it = Some (ms1 @ m # ms2) \<and> results m = es1 @ e # es2
              \<and> (\<forall>x \<in> set (concat (map results ms1) @ es1).
                    firmware_entry rec E x it s = Some (Inr (Next ()), it, s)) \<longrightarrow>
              check_firmware rec E it s
                = map_option (\<lambda>(r, child, s2). (Inr r, it, s2))
                    (rec (uimage_child E e it s scratch (int N)) (s\<lparr>temp_count := Suc (temp_count s)\<rparr>))))
      \<and> (N = 0 \<or> getsize it < int (offset e) + 64 + int N \<longrightarrow>
           firmware_entry rec E e it s = Some (Inr (Next ()), it, s)
           \<and> firmware_entries rec E (e # es) it s = firmware_entries rec E es it s)"
      by blast
  qed
  show "\<not> sublist ''uImage header'' (description x)
        \<and> \<not> (sublist ''rootfs offset: '' (description x) \<and> sublist ''kernel offset: '' (description x)) \<longrightarrow>
        firmware_entry rec E x it s = Some (Inr (Next ()), it, s)"
    by (auto simp: firmware_entry_def)
  show "firmware_entry rec E x it s = Some (Inr (Next u), it1, s1) \<longrightarrow> it1 = it \<and> s1 = s"
    using firmware_entry_next[of rec E x it s u it1 s1] by blast
qed

theorem firmware_uimage_carve_witness:
  "check_firmware (item_extract (Suc 0) late_uimage_env) late_uimage_env (fw_item late_uimage_env)
      ex_state
     = Some (Inr False, fw_item late_uimage_env, ex_state\<lparr>visited := [''mmmm''], temp_count := 2\<rparr>)
   \<and> content (uimage_child late_uimage_env \<lparr>description = uimage_desc ''4'', offset = 0\<rparr>
        (fw_item late_uimage_env) ex_state ''/tmp/scratch'' 4) = [1, 2, 3, 4]
   \<and> item (uimage_child late_uimage_env \<lparr>description = uimage_desc ''4'', offset = 0\<rparr>
        (fw_item late_uimage_env) ex_state ''/tmp/scratch'' 4) = ''/tmp/scratch/tmp''
   \<and> depth (uimage_child late_uimage_env \<lparr>description = uimage_desc ''4'', offset = 0\<rparr>
        (fw_item late_uimage_env) ex_state ''/tmp/scratch'' 4) = depth (fw_item late_uimage_env)
   \<and> firmware_entry (\<lambda>child z. Some (True, child, z)) empty_uimage_env
        \<lparr>description = uimage_desc ''0'', offset = 0\<rparr> (fw_item empty_uimage_env) ex_state
       = Some (Inr (Next ()), fw_item empty_uimage_env, ex_state)
   \<and> firmware_entry (\<lambda>child z. Some (True, child, z)) (header_env (uimage_desc ''9''))
        \<lparr>description = uimage_desc ''9'', offset = 0\<rparr> (fw_item (header_env (uimage_desc ''9'')))
        ex_state
       = Some (Inr (Next ()), fw_item (header_env (uimage_desc ''9'')), ex_state)
   \<and> firmware_entry (\<lambda>child z. Some (True, child, z)) late_uimage_env
        \<lparr>description = ''CRC32 polynomial table, little endian'', offset = 16\<rparr>
        (fw_item late_uimage_env) ex_state
       = Some (Inr (Next ()), fw_item late_uimage_env, ex_state)"
  using firmware_uimage_carve[where e = "\<lparr>description = uimage_desc ''4'', offset = 0\<rparr>"
      and it = "fw_item late_uimage_env" and scratch = "''/tmp/scratch''"
      and pre = "'' image size: ''" and N = 4 and post = "'' bytes''"
      and rec = "item_extract (Suc 0) late_uimage_env" and E = late_uimage_env and s = ex_state
      and ?ms1.0 = "[\<lparr>results = [\<lparr>description = ''LZMA compressed data'', offset = 8\<rparr>],
                      directory = None\<rparr>]"
      and m = "\<lparr>results = [\<lparr>description = ''CRC32 polynomial table, little endian'', offset = 16\<rparr>,
                  \<lparr>description = uimage_desc ''4'', offset = 0\<rparr>], directory = None\<rparr>"
      and ?ms2.0 = "[]"
      and ?es1.0 = "[\<lparr>description = ''CRC32 polynomial table, little endian'', offset = 16\<rparr>]"
      and ?es2.0 = "[]" and es = "[]"
      and x = "\<lparr>description = ''CRC32 polynomial table, little endian'', offset = 16\<rparr>"
      and u = "()" and ?it1.0 = "fw_item late_uimage_env" and ?s1.0 = ex_state]
    firmware_uimage_carve[where e = "\<lparr>description = uimage_desc ''0'', offset = 0\<rparr>"
      and it = "fw_item empty_uimage_env" and scratch = "''/tmp/scratch''"
      and pre = "'' image size: ''" and N = 0 and post = "'' bytes''"
      and rec = "\<lambda>child z. Some (True, child, z)" and E = empty_uimage_env and s = ex_state
      and ?ms1.0 = "[]"
      and m = "\<lparr>results = [\<lparr>description = uimage_desc ''0'', offset = 0\<rparr>], directory = None\<rparr>"
      and ?ms2.0 = "[]" and ?es1.0 = "[]" and ?es2.0 = "[]" and es = "[]"
      and x = "\<lparr>description = ''CRC32 polynomial table, little endian'', offset = 16\<rparr>"
      and u = "()" and ?it1.0 = "fw_item empty_uimage_env" and ?s1.0 = ex_state]
    firmware_uimage_carve[where e = "\<lparr>description = uimage_desc ''9'', offset = 0\<rparr>"
      and it = "fw_item (header_env (uimage_desc ''9''))" and scratch = "''/tmp/scratch''"
      and pre = "'' image size: ''" and N = 9 and post = "'' bytes''"
      and rec = "\<lambda>child z. Some (True, child, z)" and E = "header_env (uimage_desc ''9'')"
      and s = ex_state and ?ms1.0 = "[]"
      and m = "\<lparr>results = [\<lparr>description = uimage_desc ''9'', offset = 0\<rparr>], directory = None\<rparr>"
      and ?ms2.0 = "[]" and ?es1.0 = "[]" and ?es2.0 = "[]" and es = "[]"
      and x = "\<lparr>description = ''CRC32 polynomial table, little endian'', offset = 16\<rparr>"
      and u = "()" and ?it1.0 = "fw_item (header_env (uimage_desc ''9''))" and ?s1.0 = ex_state]
  by (simp add: fw_simps ex_simps run_simps parse_simps uimage_child_def firmware_entry_def
      late_uimage_env_def late_uimage_scan_def decimal.simps[of 4] decimal.simps[of 0]
      decimal.simps[of 9] digit_char_def
      del: ExtractionItem_fields)

text \<open>
  C5, as stated, fails for the image size 0: the entry is passed over, and no item is
  made of the (empty) carving, whatever \<^verbatim>\<open>extract\<close> would have answered on it.
\<close>

theorem firmware_uimage_carve_counterexample:
  "sublist ''uImage header'' (uimage_desc ''0'') \<and> sublist ''OS Kernel Image'' (uimage_desc ''0'')
   \<and> \<not> get_kernel_status (fw_item empty_uimage_env)
   \<and> temp (fw_item empty_uimage_env) = Some ''/tmp/scratch''
   \<and> filter (sublist ''image size:'') (split CHR '','' (uimage_desc ''0'')) = ['' image size: 0 bytes'']
   \<and> uimage_size (split CHR '','' (uimage_desc ''0'')) 0 = Inr 0
   \<and> int 0 + 64 + 0 \<le> getsize (fw_item empty_uimage_env)
   \<and> \<not> uimage_carved (\<lambda>child z. Some (True, child, z)) empty_uimage_env
         \<lparr>description = uimage_desc ''0'', offset = 0\<rparr> (fw_item empty_uimage_env) ex_state
         ''/tmp/scratch'' 0
   \<and> firmware_entry (\<lambda>child z. Some (True, child, z)) empty_uimage_env
         \<lparr>description = uimage_desc ''0'', offset = 0\<rparr> (fw_item empty_uimage_env) ex_state
       = Some (Inr (Next ()), fw_item empty_uimage_env, ex_state)"
  by (simp add: fw_simps ex_simps run_simps parse_simps uimage_child_def uimage_carved_def
      firmware_entry_def del: ExtractionItem_fields)

section \<open>The order of the files of a directory\<close>

lemma sorted_by_key_then_value:
  fixes k :: "'a::linorder \<Rightarrow> nat"
  assumes "sorted (map k xs)" "\<And>v. sorted (filter (\<lambda>y. k y = v) xs)"
  shows "sorted (map (\<lambda>x. (k x, x)) xs)"
  using assms
proof (induction xs)
  case Nil
  then show ?case by simp
next
  case (Cons x xs)
  have tl: "sorted (filter (\<lambda>y. k y = v) xs)" for v
    using Cons.prems(2)[of v] by (cases "k x = v") simp_all
  from Cons.prems(1) have "sorted (map k xs)" by simp
  with Cons.IH tl have rest: "sorted (map (\<lambda>x. (k x, x)) xs)" by simp
  have "(k x, x) \<le> (k y, y)" if y: "y \<in> set xs" for y
  proof -
    from Cons.prems(1) y have le: "k x \<le> k y" by simp
    show ?thesis
    proof (cases "k x = k y")
      case True
      from Cons.prems(2)[of "k x"] have "sorted (x # filter (\<lambda>y. k y = k x) xs)" by simp
      with y True have "x \<le> y" by simp
      with True show ?thesis by simp
    next
      case False
      with le show ?thesis by simp
    qed
  qed
  with rest show ?case by auto
qed

lemma two_sorts: "by_length_then_name (sort_key length (sort fs))"
  unfolding by_length_then_name_def
proof (rule sorted_by_key_then_value)
  show "sorted (map length (sort_key length (sort fs)))" by (rule sorted_sort_key)
next
  fix v
  have "filter (\<lambda>y. length y = v) (sort_key length (sort fs)) = filter (\<lambda>y. length y = v) (sort fs)"
    by (rule sort_key_stable)
  moreover have "sorted (filter (\<lambda>y. length y = v) (sort fs))"
    using sorted_filter[of "\<lambda>x. x" "sort fs" "\<lambda>y. length y = v"] by simp
  ultimately show "sorted (filter (\<lambda>y. length y = v) (sort_key length (sort fs)))" by simp
qed

lemma sorted_wrt_remove1_any: "sorted_wrt P xs \<Longrightarrow> sorted_wrt P (remove1 a xs)"
proof (induction xs)
  case Nil
  then show ?case by simp
next
  case (Cons x xs)
  have "set (remove1 a xs) \<subseteq> set xs" by (rule set_remove1_subset)
  with Cons show ?case by auto
qed

lemma by_length_then_name_remove1:
  "by_length_then_name fs \<Longrightarrow> by_length_then_name (remove1 f fs)"
  unfolding by_length_then_name_def sorted_map by (rule sorted_wrt_remove1_any)

lemma split_fields:
  "split c s \<noteq> [] \<and> join c (split c s) = s \<and> (\<forall>f \<in> set (split c s). c \<notin> set f)"
proof (induction s)
  case Nil
  show ?case by simp
next
  case (Cons x xs)
  then obtain y ys where y: "split c xs = y # ys" by (cases "split c xs") auto
  show ?case
  proof (cases "x = c")
    case True
    with Cons y show ?thesis by auto
  next
    case False
    with Cons y show ?thesis by (cases ys) auto
  qed
qed

lemma split_unfold:
  "split c xs = takeWhile (\<lambda>x. x \<noteq> c) xs
     # (if c \<in> set xs then split c (tl (dropWhile (\<lambda>x. x \<noteq> c) xs)) else [])"
proof (induction xs)
  case Nil
  show ?case by simp
next
  case (Cons x xs)
  then show ?case by (auto split: list.splits)
qed

lemma split_quoted:
  "(case split (CHR 0x22) f of a # b # r \<Rightarrow> Inr (Some b) | _ \<Rightarrow> Inl IndexError)
     = (case quoted f of Some b \<Rightarrow> Inr (Some b) | None \<Rightarrow> Inl IndexError)"
proof (cases "CHR 0x22 \<in> set f")
  case True
  let ?r = "tl (dropWhile (\<lambda>c. c \<noteq> CHR 0x22) f)"
  from True have "split (CHR 0x22) f = takeWhile (\<lambda>x. x \<noteq> CHR 0x22) f # split (CHR 0x22) ?r"
    using split_unfold[of "CHR 0x22" f] by simp
  moreover have "split (CHR 0x22) ?r = takeWhile (\<lambda>x. x \<noteq> CHR 0x22) ?r
      # (if CHR 0x22 \<in> set ?r then split (CHR 0x22) (tl (dropWhile (\<lambda>x. x \<noteq> CHR 0x22) ?r)) else [])"
    by (rule split_unfold)
  ultimately show ?thesis using True by (simp add: quoted_def)
next
  case False
  then have "split (CHR 0x22) f = [takeWhile (\<lambda>x. x \<noteq> CHR 0x22) f]"
    using split_unfold[of "CHR 0x22" f] by simp
  with False show ?thesis by (simp add: quoted_def)
qed

lemma orig_fields_named:
  "orig_fields stmts orig
     = (if list_ex (\<lambda>f. CHR 0x22 \<notin> set f) (filter (sublist ''original file name:'') stmts)
        then Inl IndexError
        else Inr (case filter (sublist ''original file name:'') stmts of
                    [] \<Rightarrow> orig
                  | f # fs \<Rightarrow> quoted (last (f # fs))))"
proof (induction stmts arbitrary: orig)
  case Nil
  show ?case by simp
next
  case (Cons stmt stmts)
  show ?case
  proof (cases "sublist ''original file name:'' stmt")
    case False
    with Cons show ?thesis by simp
  next
    case True
    show ?thesis
    proof (cases "CHR 0x22 \<in> set stmt")
      case q: False
      then have "split (CHR 0x22) stmt = [takeWhile (\<lambda>x. x \<noteq> CHR 0x22) stmt]"
        using split_unfold[of "CHR 0x22" stmt] by simp
      with True q show ?thesis by simp
    next
      case q: True
      then obtain b where b: "quoted stmt = Some b" by (simp add: quoted_def)
      with split_quoted[of stmt] obtain a r where "split (CHR 0x22) stmt = a # b # r"
        by (auto split: list.splits)
      with True have "orig_fields (stmt # stmts) orig = orig_fields stmts (Some b)" by simp
      with Cons[of "Some b"] True q b show ?thesis
        by (simp split: list.splits)
    qed
  qed
qed

lemma order_files_stated:
  "order_files desc fs
     = (case desc of
           None \<Rightarrow> Inr (sort_key length (sort fs))
         | Some d \<Rightarrow>
             if \<not> sublist ''original file name:'' d then Inr (sort_key length (sort fs))
             else if list_ex (\<lambda>f. CHR 0x22 \<notin> set f) (name_fields d) then Inl IndexError
             else (case named_file d of
                     None \<Rightarrow> Inr (sort_key length (sort fs))
                   | Some X \<Rightarrow>
                       if X \<noteq> [] \<and> X \<in> set fs then Inr (X # remove1 X (sort_key length (sort fs))) else Inr (sort_key length (sort fs))))"
proof (cases desc)
  case None
  then show ?thesis by (simp add: order_files_def)
next
  case (Some d)
  show ?thesis
  proof (cases "sublist ''original file name:'' d")
    case False
    with Some show ?thesis by (simp add: order_files_def)
  next
    case True
    then have "d \<noteq> []" by auto
    with Some True show ?thesis
      by (simp add: order_files_def orig_fields_named name_fields_def
          named_file_def split: list.splits option.splits)
  qed
qed

text \<open>
  C8, as amended. The files of a walked directory are taken in the order of their
  names by length and, within one length, by name, with one exception: when the
  description kept from the first result of the module (or of the last module before
  it that had results) holds \<open>original file name:\<close>, the name read in it (in its last
  field with \<open>original file name:\<close>, after the first double quote) is not empty and a
  file of the directory has that name, then that file comes first and the others
  follow in that order. A name that is empty or of no file of the directory changes
  nothing; a field with \<open>original file name:\<close> and no double quote is an
  \<^verbatim>\<open>IndexError\<close>, which ends the walk. \<^verbatim>\<open>recurse_files\<close> then takes the files from the
  front.
\<close>

theorem order_files_sorted:
  "(\<exists>zs. mset zs = mset fs \<and> by_length_then_name zs
        \<and> order_files desc fs
          = (case desc of
                None \<Rightarrow> Inr zs
              | Some d \<Rightarrow>
                  if \<not> sublist ''original file name:'' d then Inr zs
                  else if list_ex (\<lambda>f. CHR 0x22 \<notin> set f) (name_fields d) then Inl IndexError
                  else (case named_file d of
                          None \<Rightarrow> Inr zs
                        | Some X \<Rightarrow>
                            if X \<noteq> [] \<and> X \<in> set fs then Inr (X # remove1 X zs) else Inr zs)))
   \<and> recurse_walk rec E desc ((root, fs, es) # ws) cnt it s
        = (case order_files desc fs of
             Inl x \<Rightarrow> Some (Inl x, it, s)
           | Inr zs \<Rightarrow>
               (case recurse_files rec E root es zs cnt it s of
                  None \<Rightarrow> None
                | Some (Inr (Next cnt1), it1, s1) \<Rightarrow> recurse_walk rec E desc ws cnt1 it1 s1
                | Some r \<Rightarrow> Some r))
   \<and> (directory m = Some (dir, t) \<and> io_find_rootfs dir t True = Inr (False, p) \<longrightarrow>
        recurse_modules rec E desc0 (m # ms) it s
          = (case recurse_walk rec E (module_desc desc0 m) (os_walk dir t) 0 it s of
               None \<Rightarrow> None
             | Some (Inr (Next c), it1, s1) \<Rightarrow> recurse_modules rec E (module_desc desc0 m) ms it1 s1
             | Some (Inr (Return b), it1, s1) \<Rightarrow> Some (Inr b, it1, s1)
             | Some (Inl x, it1, s1) \<Rightarrow> Some (Inl x, it1, s1)))
   \<and> module_desc desc0 m = (case results m of [] \<Rightarrow> desc0 | e # es' \<Rightarrow> Some (description e))
   \<and> (scan E True fmt it = Some ms \<longrightarrow>
        check_recursive rec E fmt it s = recurse_modules rec E None ms it s)"
proof (intro conjI)
  have "mset (sort_key length (sort fs)) = mset fs" by simp
  with two_sorts[of fs] order_files_stated[of desc fs]
  show "\<exists>zs. mset zs = mset fs \<and> by_length_then_name zs
        \<and> order_files desc fs
          = (case desc of
                None \<Rightarrow> Inr zs
              | Some d \<Rightarrow>
                  if \<not> sublist ''original file name:'' d then Inr zs
                  else if list_ex (\<lambda>f. CHR 0x22 \<notin> set f) (name_fields d) then Inl IndexError
                  else (case named_file d of
                          None \<Rightarrow> Inr zs
                        | Some X \<Rightarrow>
                            if X \<noteq> [] \<and> X \<in> set fs then Inr (X # remove1 X zs) else Inr zs))"
    by blast
  show "recurse_walk rec E desc ((root, fs, es) # ws) cnt it s
        = (case order_files desc fs of
             Inl x \<Rightarrow> Some (Inl x, it, s)
           | Inr zs \<Rightarrow>
               (case recurse_files rec E root es zs cnt it s of
                  None \<Rightarrow> None
                | Some (Inr (Next cnt1), it1, s1) \<Rightarrow> recurse_walk rec E desc ws cnt1 it1 s1
                | Some r \<Rightarrow> Some r))"
    by simp
  show "directory m = Some (dir, t) \<and> io_find_rootfs dir t True = Inr (False, p) \<longrightarrow>
        recurse_modules rec E desc0 (m # ms) it s
          = (case recurse_walk rec E (module_desc desc0 m) (os_walk dir t) 0 it s of
               None \<Rightarrow> None
             | Some (Inr (Next c), it1, s1) \<Rightarrow> recurse_modules rec E (module_desc desc0 m) ms it1 s1
             | Some (Inr (Return b), it1, s1) \<Rightarrow> Some (Inr b, it1, s1)
             | Some (Inl x, it1, s1) \<Rightarrow> Some (Inl x, it1, s1))"
    by simp
  show "module_desc desc0 m = (case results m of [] \<Rightarrow> desc0 | e # es' \<Rightarrow> Some (description e))"
    by (simp add: module_desc_def)
  show "scan E True fmt it = Some ms \<longrightarrow>
        check_recursive rec E fmt it s = recurse_modules rec E None ms it s"
    by (simp add: check_recursive_def)
qed


lemmas order_simps =
  order_files_def some_files_def some_dir_def gzip_desc_def two_findings_def module_desc_def
  sublist_code(3)

theorem order_files_sorted_witness:
  "order_files None some_files = Inr [''a'', ''c'', ''zz'', ''b.txt'', ''fw.bin'']
   \<and> by_length_then_name [''a'', ''c'', ''zz'', ''b.txt'', ''fw.bin'']
   \<and> named_file gzip_desc = Some ''fw.bin''
   \<and> order_files (Some gzip_desc) some_files = Inr [''fw.bin'', ''a'', ''c'', ''zz'', ''b.txt'']
   \<and> order_files (Some gzip_desc) [''zz'', ''a''] = Inr [''a'', ''zz'']
   \<and> order_files (Some ''has original file name: none'') some_files = Inl IndexError
   \<and> io_find_rootfs ''/tmp/x'' some_dir True = Inr (False, ''/tmp/x'')
   \<and> scan (archive_env some_dir) True ''archive'' archive_item
       = Some [\<lparr>results = [\<lparr>description = ''POSIX tar archive'', offset = 0\<rparr>],
                 directory = Some (''/tmp/tmp/_fw.extracted'', some_dir)\<rparr>]"
  using order_files_sorted[where fs = some_files and desc = None and rec = rec
      and E = "archive_env some_dir" and root = "''/tmp/x''" and es = "entries some_dir"
      and ws = "[]" and cnt = 0 and it = archive_item and s = s
      and m = "\<lparr>results = [], directory = Some (''/tmp/x'', some_dir)\<rparr>" and dir = "''/tmp/x''"
      and t = some_dir and p = "''/tmp/x''" and ?desc0.0 = None and ms = "[]"
      and fmt = "''archive''"]
    order_files_sorted[where fs = some_files and desc = "Some gzip_desc" and rec = rec
      and E = "archive_env some_dir" and root = "''/tmp/x''" and es = "entries some_dir"
      and ws = "[]" and cnt = 0 and it = archive_item and s = s
      and m = "\<lparr>results = [], directory = Some (''/tmp/x'', some_dir)\<rparr>" and dir = "''/tmp/x''"
      and t = some_dir and p = "''/tmp/x''" and ?desc0.0 = None
      and ms = "[\<lparr>results = [\<lparr>description = ''POSIX tar archive'', offset = 0\<rparr>],
                 directory = Some (''/tmp/tmp/_fw.extracted'', some_dir)\<rparr>]"
      and fmt = "''archive''"]
  by (simp add: order_simps io_find_rootfs.simps unix_count_def UNIX_DIRS_def UNIX_THRESHOLD_def
      isdir_in_def by_length_then_name_def named_file_def name_fields_def quoted_def
      archive_env_def archive_item_def ex_simps run_simps
      del: recurse_walk.simps recurse_modules.simps)

text \<open>
  C8, as stated, fails: the second result of the module names the original file
  \<open>fw.bin\<close>, which is in the directory, and \<open>fw.bin\<close> is still taken last.
\<close>

theorem order_files_sorted_counterexample:
  "list_ex (\<lambda>e. sublist (''original file name: '' @ [CHR 0x22] @ ''fw.bin'' @ [CHR 0x22]) (description e))
     (results two_findings)
   \<and> ''fw.bin'' \<in> set some_files
   \<and> order_files (module_desc None two_findings) some_files
       = Inr [''a'', ''c'', ''zz'', ''b.txt'', ''fw.bin'']"
  by (simp add: order_simps)

section \<open>The breadth of the recursion\<close>

lemma order_files_mset: "order_files desc fs = Inr zs \<Longrightarrow> mset zs = mset fs"
  by (auto simp: order_files_def Let_def split: option.splits if_splits sum.splits)

lemma order_files_length: "order_files desc fs = Inr zs \<Longrightarrow> length zs = length fs"
  by (drule order_files_mset) (rule mset_eq_length)

lemma recurse_files_append:
  "recurse_files rec E root es (xs @ zs) cnt it s
     = (case recurse_files rec E root es xs cnt it s of
          Some (Inr (Next c), it1, s1) \<Rightarrow> recurse_files rec E root es zs c it1 s1
        | r \<Rightarrow> r)"
proof (induction xs arbitrary: cnt it s)
  case Nil
  show ?case by simp
next
  case (Cons x xs)
  show ?case
    by (simp add: Cons.IH split: option.splits fsnode.splits prod.splits)
qed

lemma recurse_files_next:
  "recurse_files rec E root es xs cnt it s = Some (Inr (Next c), it1, s1)
   \<Longrightarrow> c = cnt + length xs \<and> (xs \<noteq> [] \<longrightarrow> c \<le> Suc RECURSION_BREADTH)"
proof (induction xs arbitrary: cnt it s)
  case Nil
  then show ?case by simp
next
  case (Cons x xs)
  from Cons.prems have le: "cnt \<le> RECURSION_BREADTH" by (simp split: if_splits)
  from Cons.prems obtain it' s' where
    r: "recurse_files rec E root es xs (cnt + 1) it' s' = Some (Inr (Next c), it1, s1)"
    by (auto split: if_splits option.splits fsnode.splits prod.splits)
  from Cons.IH[OF r] le show ?case by (cases xs) auto
qed

lemma recurse_files_cut:
  assumes "cnt + length xs = Suc RECURSION_BREADTH"
  shows "recurse_files rec E root es (xs @ y # ys) cnt it s
     = (case recurse_files rec E root es xs cnt it s of
          Some (Inr (Next c), it1, s1) \<Rightarrow> Some (Inr (Return True), it1\<lparr>terminate := True\<rparr>, s1)
        | r \<Rightarrow> r)"
proof (cases "recurse_files rec E root es xs cnt it s")
  case None
  then show ?thesis by (simp add: recurse_files_append)
next
  case (Some r)
  obtain v it1 s1 where r: "r = (v, it1, s1)" by (cases r)
  show ?thesis
  proof (cases v)
    case (Inl x)
    with Some r show ?thesis by (simp add: recurse_files_append)
  next
    case (Inr f)
    show ?thesis
    proof (cases f)
      case (Next c)
      with Some r Inr recurse_files_next[of rec E root es xs cnt it s c it1 s1] assms
      have "c = Suc RECURSION_BREADTH" by simp
      with Some r Inr Next show ?thesis by (simp add: recurse_files_append)
    next
      case (Return b)
      with Some r Inr show ?thesis by (simp add: recurse_files_append)
    qed
  qed
qed

lemma recurse_walk_append:
  "recurse_walk rec E desc (ws1 @ ws2) cnt it s
     = (case recurse_walk rec E desc ws1 cnt it s of
          Some (Inr (Next c), it1, s1) \<Rightarrow> recurse_walk rec E desc ws2 c it1 s1
        | r \<Rightarrow> r)"
proof (induction ws1 arbitrary: cnt it s)
  case Nil
  show ?case by simp
next
  case (Cons w ws1)
  obtain root fs es where w: "w = (root, fs, es)" by (cases w)
  show ?case unfolding w
    by (simp add: Cons.IH split: option.splits sum.splits prod.splits flow.splits)
qed

lemma recurse_walk_next:
  "recurse_walk rec E desc ws cnt it s = Some (Inr (Next c), it1, s1)
   \<Longrightarrow> c = cnt + total_files ws \<and> (total_files ws \<noteq> 0 \<longrightarrow> c \<le> Suc RECURSION_BREADTH)"
proof (induction ws arbitrary: cnt it s)
  case Nil
  then show ?case by (simp add: total_files_def)
next
  case (Cons w ws)
  obtain root fs es where w: "w = (root, fs, es)" by (cases w)
  from Cons.prems w obtain zs c' it' s' where
    o: "order_files desc fs = Inr zs"
    and f: "recurse_files rec E root es zs cnt it s = Some (Inr (Next c'), it', s')"
    and r: "recurse_walk rec E desc ws c' it' s' = Some (Inr (Next c), it1, s1)"
    by (auto split: sum.splits option.splits prod.splits flow.splits)
  from recurse_files_next[OF f] order_files_length[OF o]
  have c': "c' = cnt + length fs" "fs \<noteq> [] \<longrightarrow> c' \<le> Suc RECURSION_BREADTH" by auto
  from Cons.IH[OF r] have c: "c = c' + total_files ws"
    "total_files ws \<noteq> 0 \<longrightarrow> c \<le> Suc RECURSION_BREADTH" by auto
  have tf: "total_files (w # ws) = length fs + total_files ws"
    unfolding w by (simp add: total_files_def)
  show ?case
  proof (cases "total_files ws = 0")
    case True
    with c c' tf show ?thesis by auto
  next
    case False
    with c c' tf show ?thesis by auto
  qed
qed

lemma recurse_walk_cut:
  "(order_files desc fs = Inr (xs @ y # ys) \<and> total_files ws1 + length xs = 6 \<longrightarrow>
      recurse_walk rec E desc (ws1 @ (root, fs, es) # ws2) 0 it s
        = (case recurse_walk rec E desc ws1 0 it s of
             Some (Inr (Next c), it1, s1) \<Rightarrow>
               (case recurse_files rec E root es xs c it1 s1 of
                  Some (Inr (Next c'), it2, s2) \<Rightarrow>
                    Some (Inr (Return True), it2\<lparr>terminate := True\<rparr>, s2)
                | r \<Rightarrow> r)
           | r \<Rightarrow> r))
   \<and> (recurse_walk rec E desc ws 0 it s = Some (Inr (Next c), it1, s1) \<longrightarrow>
        c = total_files ws \<and> c \<le> 6)"
proof (rule conjI; rule impI)
  assume a: "order_files desc fs = Inr (xs @ y # ys) \<and> total_files ws1 + length xs = 6"
  show "recurse_walk rec E desc (ws1 @ (root, fs, es) # ws2) 0 it s
        = (case recurse_walk rec E desc ws1 0 it s of
             Some (Inr (Next c), it1, s1) \<Rightarrow>
               (case recurse_files rec E root es xs c it1 s1 of
                  Some (Inr (Next c'), it2, s2) \<Rightarrow>
                    Some (Inr (Return True), it2\<lparr>terminate := True\<rparr>, s2)
                | r \<Rightarrow> r)
           | r \<Rightarrow> r)"
  proof (cases "recurse_walk rec E desc ws1 0 it s")
    case None
    then show ?thesis by (simp add: recurse_walk_append)
  next
    case (Some r)
    obtain v it1 s1 where r: "r = (v, it1, s1)" by (cases r)
    show ?thesis
    proof (cases v)
      case (Inl x)
      with Some r show ?thesis by (simp add: recurse_walk_append)
    next
      case (Inr f)
      show ?thesis
      proof (cases f)
        case (Next c)
        with Some r Inr recurse_walk_next[of rec E desc ws1 0 it s c it1 s1]
        have c: "c = total_files ws1" by simp
        with a have "c + length xs = Suc RECURSION_BREADTH" by (simp add: RECURSION_BREADTH_def)
        from recurse_files_cut[OF this, of rec E root es y ys it1 s1] a Some r Inr Next
        show ?thesis
          by (simp add: recurse_walk_append split: option.splits sum.splits prod.splits flow.splits)
      next
        case (Return b)
        with Some r Inr show ?thesis by (simp add: recurse_walk_append)
      qed
    qed
  qed
next
  assume "recurse_walk rec E desc ws 0 it s = Some (Inr (Next c), it1, s1)"
  from recurse_walk_next[OF this] show "c = total_files ws \<and> c \<le> 6"
    by (cases "total_files ws = 0") (auto simp: RECURSION_BREADTH_def)
qed


lemma update_status_fields [simp]:
  "depth (update_status s it) = depth it"
  "temp (update_status s it) = temp it"
  "content (update_status s it) = content it"
  "checksum (update_status s it) = checksum it"
  "item (update_status s it) = item it"
  "terminate (update_status s it) = terminate it"
  "output_prefix (update_status s it) = output_prefix it"
  by (simp_all add: update_status_def Let_def)

lemma files_children_length:
  "length (files_children rec E root es fs cnt it s) \<le> Suc RECURSION_BREADTH - cnt"
proof (induction fs arbitrary: cnt it s)
  case Nil
  show ?case by simp
next
  case (Cons f fs)
  show ?case
  proof (cases "cnt > RECURSION_BREADTH")
    case True
    then show ?thesis by simp
  next
    case False
    have "length (files_children rec E root es fs (cnt + 1) it' s') \<le> RECURSION_BREADTH - cnt" for it' s'
      using Cons.IH[of "cnt + 1" it' s'] by simp
    moreover from False have "Suc RECURSION_BREADTH - cnt = Suc (RECURSION_BREADTH - cnt)"
      by simp
    ultimately show ?thesis using False
      by (auto split: option.splits fsnode.splits)
  qed
qed

lemma files_children_all:
  "recurse_files rec E root es fs cnt it s = Some (Inr (Next c), it1, s1)
   \<Longrightarrow> length (files_children rec E root es fs cnt it s) = length fs"
proof (induction fs arbitrary: cnt it s)
  case Nil
  show ?case by simp
next
  case (Cons f fs)
  from Cons.prems have le: "\<not> cnt > RECURSION_BREADTH" by (simp split: if_splits)
  from Cons.prems le obtain d where d: "map_of es f = Some (File d)"
    by (auto split: option.splits fsnode.splits)
  let ?child = "ExtractionItem E s (path_join root f) d (depth it + 1)"
  from Cons.prems le d obtain r ni s' where rc: "rec ?child s = Some (r, ni, s')"
    by (auto split: option.splits)
  show ?case
  proof (cases r)
    case True
    with Cons.prems le d rc have ng: "\<not> get_status (update_status s' it)"
      and rest: "recurse_files rec E root es fs (cnt + 1) (update_status s' it) s'
                   = Some (Inr (Next c), it1, s1)"
      by (auto split: if_splits)
    from Cons.IH[OF rest] le d rc True ng show ?thesis by simp
  next
    case False
    with Cons.prems le d rc have rest:
      "recurse_files rec E root es fs (cnt + 1) it s' = Some (Inr (Next c), it1, s1)"
      by auto
    from Cons.IH[OF rest] le d rc False show ?thesis by simp
  qed
qed

lemma files_children_depth:
  "c \<in> set (files_children rec E root es fs cnt it s) \<Longrightarrow> depth c = depth it + 1"
proof (induction fs arbitrary: cnt it s)
  case Nil
  then show ?case by simp
next
  case (Cons f fs)
  then show ?case
    by (fastforce split: if_splits option.splits fsnode.splits prod.splits)
qed

lemma recurse_files_depth:
  "recurse_files rec E root es fs cnt it s = Some (r, it1, s1) \<Longrightarrow> depth it1 = depth it"
proof (induction fs arbitrary: cnt it s)
  case Nil
  then show ?case by simp
next
  case (Cons f fs)
  then show ?case
    by (fastforce split: if_splits option.splits fsnode.splits prod.splits)
qed

lemma files_children_rec:
  "(\<And>c z. c \<in> set (files_children rec E root es fs cnt it s) \<Longrightarrow> rec' c z = rec c z)
   \<Longrightarrow> recurse_files rec' E root es fs cnt it s = recurse_files rec E root es fs cnt it s
       \<and> files_children rec' E root es fs cnt it s = files_children rec E root es fs cnt it s"
proof (induction fs arbitrary: cnt it s)
  case Nil
  show ?case by simp
next
  case (Cons f fs)
  show ?case
  proof (cases "cnt > RECURSION_BREADTH")
    case True
    then show ?thesis by simp
  next
    case le: False
    show ?thesis
    proof (cases "map_of es f")
      case None
      with le show ?thesis by simp
    next
      case (Some t)
      show ?thesis
      proof (cases t)
        case (Dir x)
        with Some le show ?thesis by simp
      next
        case (File d)
        let ?child = "ExtractionItem E s (path_join root f) d (depth it + 1)"
        from le Some File have mem: "?child \<in> set (files_children rec E root es (f # fs) cnt it s)"
          by simp
        have same: "rec' ?child s = rec ?child s" by (rule Cons.prems[OF mem])
        show ?thesis
        proof (cases "rec ?child s")
          case None
          with le Some File same show ?thesis by simp
        next
          case (Some res)
          obtain r ni s' where res: "res = (r, ni, s')" by (cases res)
          have sub: "c \<in> set (files_children rec E root es fs (cnt + 1) it' s')
               \<Longrightarrow> (it' = it \<and> \<not> r) \<or> (it' = update_status s' it \<and> r \<and> \<not> get_status (update_status s' it))
               \<Longrightarrow> c \<in> set (files_children rec E root es (f # fs) cnt it s)" for c it'
            using le \<open>map_of es f = _\<close> File Some res by auto
          show ?thesis
          proof (cases r)
            case True
            show ?thesis
            proof (cases "get_status (update_status s' it)")
              case True
              with le \<open>map_of es f = _\<close> File Some res same \<open>r\<close> show ?thesis by simp
            next
              case False
              have "recurse_files rec' E root es fs (cnt + 1) (update_status s' it) s'
                     = recurse_files rec E root es fs (cnt + 1) (update_status s' it) s'
                  \<and> files_children rec' E root es fs (cnt + 1) (update_status s' it) s'
                     = files_children rec E root es fs (cnt + 1) (update_status s' it) s'"
                by (rule Cons.IH) (rule Cons.prems, rule sub, assumption, simp add: True False)
              with le \<open>map_of es f = _\<close> File Some res same \<open>r\<close> False show ?thesis by simp
            qed
          next
            case False
            have "recurse_files rec' E root es fs (cnt + 1) it s'
                     = recurse_files rec E root es fs (cnt + 1) it s'
                  \<and> files_children rec' E root es fs (cnt + 1) it s'
                     = files_children rec E root es fs (cnt + 1) it s'"
              by (rule Cons.IH) (rule Cons.prems, rule sub, assumption, simp add: False)
            with le \<open>map_of es f = _\<close> File Some res same False show ?thesis by simp
          qed
        qed
      qed
    qed
  qed
qed


lemma walk_children_length:
  "length (walk_children rec E desc ws cnt it s) \<le> Suc RECURSION_BREADTH - cnt"
proof (induction ws arbitrary: cnt it s)
  case Nil
  show ?case by simp
next
  case (Cons w ws)
  obtain root fs es where w: "w = (root, fs, es)" by (cases w)
  show ?case
  proof (cases "order_files desc fs")
    case (Inl x)
    with w show ?thesis by simp
  next
    case (Inr zs)
    have k: "length (files_children rec E root es zs cnt it s) \<le> Suc RECURSION_BREADTH - cnt"
      by (rule files_children_length)
    show ?thesis
    proof (cases "\<exists>c it1 s1. recurse_files rec E root es zs cnt it s = Some (Inr (Next c), it1, s1)")
      case True
      then obtain c it1 s1 where
        n: "recurse_files rec E root es zs cnt it s = Some (Inr (Next c), it1, s1)" by blast
      from recurse_files_next[OF n] have c: "c = cnt + length zs" by simp
      from files_children_all[OF n] have all: "length (files_children rec E root es zs cnt it s) = length zs" .
      from Cons.IH[of c it1 s1] have "length (walk_children rec E desc ws c it1 s1)
          \<le> Suc RECURSION_BREADTH - c" .
      with k c all w Inr n show ?thesis by simp
    next
      case False
      then have "(case recurse_files rec E root es zs cnt it s of
               Some (Inr (Next cnt1), it1, s1) \<Rightarrow> walk_children rec E desc ws cnt1 it1 s1
             | _ \<Rightarrow> []) = []"
        by (auto split: option.splits sum.splits prod.splits flow.splits)
      with k w Inr show ?thesis by simp
    qed
  qed
qed

lemma recurse_walk_depth:
  "recurse_walk rec E desc ws cnt it s = Some (r, it1, s1) \<Longrightarrow> depth it1 = depth it"
proof (induction ws arbitrary: cnt it s)
  case Nil
  then show ?case by simp
next
  case (Cons w ws)
  obtain root fs es where w: "w = (root, fs, es)" by (cases w)
  from Cons.prems show ?case unfolding w
    by (auto split: sum.splits option.splits prod.splits flow.splits
        dest!: recurse_files_depth Cons.IH)
qed

lemma walk_children_depth:
  "c \<in> set (walk_children rec E desc ws cnt it s) \<Longrightarrow> depth c = depth it + 1"
proof (induction ws arbitrary: cnt it s)
  case Nil
  then show ?case by simp
next
  case (Cons w ws)
  obtain root fs es where w: "w = (root, fs, es)" by (cases w)
  from Cons.prems w obtain zs where o: "order_files desc fs = Inr zs"
    by (cases "order_files desc fs") auto
  from Cons.prems w o consider
      (here) "c \<in> set (files_children rec E root es zs cnt it s)"
    | (later) c1 it1 s1 where
        "Some (Inr (Next c1), it1, s1) = recurse_files rec E root es zs cnt it s"
        "c \<in> set (walk_children rec E desc ws c1 it1 s1)"
    by (auto split: option.splits sum.splits prod.splits flow.splits)
  then show ?case
  proof cases
    case here
    then show ?thesis by (rule files_children_depth)
  next
    case later
    from Cons.IH[OF later(2)] recurse_files_depth[OF later(1)[symmetric]] show ?thesis by simp
  qed
qed

lemma walk_children_rec:
  "(\<And>c z. c \<in> set (walk_children rec E desc ws cnt it s) \<Longrightarrow> rec' c z = rec c z)
   \<Longrightarrow> recurse_walk rec' E desc ws cnt it s = recurse_walk rec E desc ws cnt it s"
proof (induction ws arbitrary: cnt it s)
  case Nil
  show ?case by simp
next
  case (Cons w ws)
  obtain root fs es where w: "w = (root, fs, es)" by (cases w)
  show ?case
  proof (cases "order_files desc fs")
    case (Inl x)
    with w show ?thesis by simp
  next
    case (Inr zs)
    have fsame: "recurse_files rec' E root es zs cnt it s = recurse_files rec E root es zs cnt it s"
      using files_children_rec[of rec E root es zs cnt it s rec'] Cons.prems w Inr by simp
    show ?thesis
    proof (cases "\<exists>c it1 s1. recurse_files rec E root es zs cnt it s = Some (Inr (Next c), it1, s1)")
      case True
      then obtain c it1 s1 where
        n: "recurse_files rec E root es zs cnt it s = Some (Inr (Next c), it1, s1)" by blast
      have "recurse_walk rec' E desc ws c it1 s1 = recurse_walk rec E desc ws c it1 s1"
        by (rule Cons.IH) (rule Cons.prems, simp add: w Inr n)
      with fsame n w Inr show ?thesis by simp
    next
      case False
      with fsame w Inr show ?thesis
        by (auto split: option.splits sum.splits prod.splits flow.splits)
    qed
  qed
qed

text \<open>
  C1, as amended. In the walk of one extracted directory at most six items are made
  of its files, each one level deeper than the item walked; and the walk depends on
  \<^verbatim>\<open>extract\<close> for these items only.
\<close>

theorem recurse_walk_children:
  "length (walk_children rec E desc ws 0 it s) \<le> 6
   \<and> list_all (\<lambda>c. depth c = depth it + 1) (walk_children rec E desc ws 0 it s)
   \<and> ((\<forall>c \<in> set (walk_children rec E desc ws 0 it s). \<forall>z. rec' c z = rec c z) \<longrightarrow>
        recurse_walk rec' E desc ws 0 it s = recurse_walk rec E desc ws 0 it s)"
proof (intro conjI impI)
  show "length (walk_children rec E desc ws 0 it s) \<le> 6"
    using walk_children_length[of rec E desc ws 0 it s] by (simp add: RECURSION_BREADTH_def)
  show "list_all (\<lambda>c. depth c = depth it + 1) (walk_children rec E desc ws 0 it s)"
    unfolding list_all_iff using walk_children_depth[of _ rec E desc ws 0 it s] by blast
next
  assume "\<forall>c \<in> set (walk_children rec E desc ws 0 it s). \<forall>z. rec' c z = rec c z"
  then show "recurse_walk rec' E desc ws 0 it s = recurse_walk rec E desc ws 0 it s"
    by (intro walk_children_rec) simp
qed


lemmas walk_simps =
  seven_files_def two_files_def archive_env_def archive_item_def total_files_def order_files_def

lemma seven_children:
  "map item (walk_children (item_extract (Suc 0) (archive_env seven_files)) (archive_env seven_files)
      None (os_walk ''/tmp/tmp/_fw.extracted'' seven_files) 0 archive_item ex_state)
     = [''/tmp/tmp/_fw.extracted/f0'', ''/tmp/tmp/_fw.extracted/f1'', ''/tmp/tmp/_fw.extracted/f2'',
        ''/tmp/tmp/_fw.extracted/f3'', ''/tmp/tmp/_fw.extracted/f4'', ''/tmp/tmp/_fw.extracted/f5'']
   \<and> list_all (\<lambda>c. depth c = 1)
        (walk_children (item_extract (Suc 0) (archive_env seven_files)) (archive_env seven_files)
          None (os_walk ''/tmp/tmp/_fw.extracted'' seven_files) 0 archive_item ex_state)"
  by (simp add: walk_simps ex_simps run_simps)

theorem recurse_walk_children_witness:
  "length (walk_children (item_extract (Suc 0) (archive_env seven_files)) (archive_env seven_files)
      None (os_walk ''/tmp/tmp/_fw.extracted'' seven_files) 0 archive_item ex_state) = 6
   \<and> recurse_walk (\<lambda>c z. if depth c = 1 then item_extract (Suc 0) (archive_env seven_files) c z else None)
        (archive_env seven_files) None (os_walk ''/tmp/tmp/_fw.extracted'' seven_files) 0
        archive_item ex_state
     = recurse_walk (item_extract (Suc 0) (archive_env seven_files))
        (archive_env seven_files) None (os_walk ''/tmp/tmp/_fw.extracted'' seven_files) 0
        archive_item ex_state"
proof -
  let ?rec = "item_extract (Suc 0) (archive_env seven_files)"
  let ?cs = "walk_children ?rec (archive_env seven_files) None
      (os_walk ''/tmp/tmp/_fw.extracted'' seven_files) 0 archive_item ex_state"
  from seven_children have "length (map item ?cs) = 6" by (simp del: length_map)
  then have len: "length ?cs = 6" by simp
  from seven_children have "\<forall>c \<in> set ?cs. \<forall>z.
      (if depth c = 1 then ?rec c z else None) = ?rec c z"
    by (simp add: list_all_iff)
  with recurse_walk_children[of ?rec "archive_env seven_files" None
      "os_walk ''/tmp/tmp/_fw.extracted'' seven_files" archive_item ex_state
      "\<lambda>c z. if depth c = 1 then ?rec c z else None"] len
  show ?thesis by blast
qed

text \<open>
  C1, as stated, fails: of an archive of seven files, six are made items and
  extracted (the checksums of the archive and of the six are visited) before
  \<open>terminate\<close> is set.
\<close>

theorem recurse_walk_children_counterexample:
  "\<not> length (walk_children (item_extract (Suc 0) (archive_env seven_files)) (archive_env seven_files)
        None (os_walk ''/tmp/tmp/_fw.extracted'' seven_files) 0 archive_item ex_state)
      \<le> RECURSION_BREADTH
   \<and> item_extract (Suc (Suc 0)) (archive_env seven_files)
        (ex_item ''/in/fw.tar'' [170, 1, 2, 3, 4, 5, 6, 7] 0) ex_state
     = Some (True, archive_item\<lparr>terminate := True\<rparr>,
             ex_state\<lparr>visited := [''mmmmmmmm'', ''m'', ''mm'', ''mmm'', ''mmmm'', ''mmmmm'', ''mmmmmm''],
                        temp_count := 7\<rparr>)"
proof -
  let ?cs = "walk_children (item_extract (Suc 0) (archive_env seven_files)) (archive_env seven_files)
        None (os_walk ''/tmp/tmp/_fw.extracted'' seven_files) 0 archive_item ex_state"
  from seven_children have "length (map item ?cs) = 6" by (simp del: length_map)
  then have "\<not> length ?cs \<le> RECURSION_BREADTH" by (simp add: RECURSION_BREADTH_def)
  moreover have "item_extract (Suc (Suc 0)) (archive_env seven_files)
        (ex_item ''/in/fw.tar'' [170, 1, 2, 3, 4, 5, 6, 7] 0) ex_state
     = Some (True, archive_item\<lparr>terminate := True\<rparr>,
             ex_state\<lparr>visited := [''mmmmmmmm'', ''m'', ''mm'', ''mmm'', ''mmmm'', ''mmmmm'', ''mmmmmm''],
                        temp_count := 7\<rparr>)"
    by (simp add: walk_simps ex_simps run_simps io_find_rootfs.simps unix_count_def
        UNIX_DIRS_def UNIX_THRESHOLD_def isdir_in_def module_desc_def)
  ultimately show ?thesis by simp
qed

lemma recurse_files_all_false:
  assumes rec: "\<And>c z. \<exists>c' z'. rec c z = Some (False, c', z')"
    and reg: "list_all (\<lambda>f. \<exists>d. map_of es f = Some (File d)) xs"
    and le: "cnt + length xs \<le> Suc RECURSION_BREADTH"
  shows "\<exists>s'. recurse_files rec E root es xs cnt it s = Some (Inr (Next (cnt + length xs)), it, s')"
  using reg le
proof (induction xs arbitrary: cnt s)
  case Nil
  show ?case by simp
next
  case (Cons f fs)
  from Cons.prems obtain d where d: "map_of es f = Some (File d)" by auto
  from Cons.prems have c: "\<not> cnt > RECURSION_BREADTH" by simp
  from rec obtain c' z' where
    r: "rec (ExtractionItem E s (path_join root f) d (depth it + 1)) s = Some (False, c', z')"
    by blast
  from Cons.prems have "list_all (\<lambda>f. \<exists>d. map_of es f = Some (File d)) fs"
    and "Suc cnt + length fs \<le> Suc RECURSION_BREADTH" by simp_all
  from Cons.IH[OF this, of z'] obtain s' where
    "recurse_files rec E root es fs (Suc cnt) it z' = Some (Inr (Next (Suc cnt + length fs)), it, s')"
    by blast
  with d c r show ?case by simp
qed

lemma check_recursive_seven:
  assumes sc: "scan E True fmt it = Some (m # ms)" and d: "directory m = Some (dir, t)"
    and nr: "io_find_rootfs dir t True = Inr (False, p)"
    and w: "os_walk dir t = (root, fs, es) # ws2" and len: "6 < length fs"
    and reg: "list_all (\<lambda>f. \<exists>d. map_of es f = Some (File d)) fs"
    and ord: "order_files (module_desc None m) fs = Inr zs"
    and rec: "\<And>child z. \<exists>child' z'. rec child z = Some (False, child', z')"
  shows "(\<exists>s'. check_recursive rec E fmt it s = Some (Inr True, it\<lparr>terminate := True\<rparr>, s'))
     \<and> length (files_children rec E root es (take 6 zs) 0 it s) = 6"
proof -
  from ord have ms: "mset zs = mset fs" by (rule order_files_mset)
  then have lz: "length zs = length fs" by (rule mset_eq_length)
  from ms have sz: "set zs = set fs" by (rule mset_eq_setD)
  from lz len have split: "zs = take 6 zs @ zs ! 6 # drop 7 zs"
    using id_take_nth_drop[of 6 zs] by simp
  from lz len have l6: "length (take 6 zs) = 6" by simp
  have "set (take 6 zs) \<subseteq> set fs" using sz set_take_subset[of 6 zs] by simp
  with reg have reg6: "list_all (\<lambda>f. \<exists>d. map_of es f = Some (File d)) (take 6 zs)"
    by (auto simp: list_all_iff)
  from recurse_files_all_false[of rec es "take 6 zs" 0 E root it s, OF rec reg6] l6
  obtain s' where rf: "recurse_files rec E root es (take 6 zs) 0 it s = Some (Inr (Next 6), it, s')"
    by (auto simp: RECURSION_BREADTH_def)
  from ord split have ord': "order_files (module_desc None m) fs = Inr (take 6 zs @ zs ! 6 # drop 7 zs)"
    by simp
  have nil: "recurse_walk rec E (module_desc None m) [] 0 it s = Some (Inr (Next 0), it, s)"
    by simp
  have "total_files [] + length (take 6 zs) = 6" using l6 by (simp add: total_files_def)
  with ord' recurse_walk_cut[of "module_desc None m" fs "take 6 zs" "zs ! 6" "drop 7 zs" "[]"
        rec E root es ws2 it s]
  have "recurse_walk rec E (module_desc None m) ([] @ (root, fs, es) # ws2) 0 it s
        = (case recurse_walk rec E (module_desc None m) [] 0 it s of
             Some (Inr (Next c), it1, s1) \<Rightarrow>
               (case recurse_files rec E root es (take 6 zs) c it1 s1 of
                  Some (Inr (Next c'), it2, s2) \<Rightarrow>
                    Some (Inr (Return True), it2\<lparr>terminate := True\<rparr>, s2)
                | r \<Rightarrow> r)
           | r \<Rightarrow> r)"
    by blast
  then have "recurse_walk rec E (module_desc None m) ((root, fs, es) # ws2) 0 it s
      = Some (Inr (Return True), it\<lparr>terminate := True\<rparr>, s')"
    unfolding nil by (simp add: rf del: recurse_walk.simps)
  with sc d nr w have "check_recursive rec E fmt it s = Some (Inr True, it\<lparr>terminate := True\<rparr>, s')"
    by (simp add: check_recursive_def del: recurse_walk.simps)
  moreover from rf l6 have "length (files_children rec E root es (take 6 zs) 0 it s) = 6"
    by (auto dest: files_children_all)
  ultimately show ?thesis by blast
qed

text \<open>
  C6. In \<^verbatim>\<open>_check_recursive\<close>, for an extracted directory that is no UNIX root, the
  counter starts at 0. When the directories of the walk before one hold, together
  with the first files \<open>xs\<close> of that one in their order, six files, and a seventh
  file \<open>y\<close> follows, then the walk does what it does on those six and, if it gets
  through them, sets \<open>terminate\<close> and returns \<^verbatim>\<open>True\<close>, whatever \<open>y\<close> and the files
  after it are; what the walk returns, the check (archive or compressed) returns, and
  the item then counts as complete. The six before are all attempted: where
  \<^verbatim>\<open>extract\<close> answers \<^verbatim>\<open>False\<close> on every item, up to six regular files are gone
  through, an item made of each, without \<open>terminate\<close>; so a directory of seven regular
  files or more, the first that is walked, has exactly its first six files attempted,
  and the check sets \<open>terminate\<close> and returns \<^verbatim>\<open>True\<close>. And a walk that runs to its
  end has counted every file, at most six.
\<close>

theorem check_recursive_breadth:
  "(order_files desc fs = Inr (xs @ y # ys) \<and> total_files ws1 + length xs = 6 \<longrightarrow>
      recurse_walk rec E desc (ws1 @ (root, fs, es) # ws2) 0 it s
        = (case recurse_walk rec E desc ws1 0 it s of
             Some (Inr (Next c), it1, s1) \<Rightarrow>
               (case recurse_files rec E root es xs c it1 s1 of
                  Some (Inr (Next c'), it2, s2) \<Rightarrow>
                    Some (Inr (Return True), it2\<lparr>terminate := True\<rparr>, s2)
                | r \<Rightarrow> r)
           | r \<Rightarrow> r))
   \<and> (recurse_walk rec E desc ws 0 it s = Some (Inr (Next c), it1, s1) \<longrightarrow>
        c = total_files ws \<and> c \<le> 6)
   \<and> (scan E True fmt it = Some (m # ms) \<and> directory m = Some (dir, t)
        \<and> io_find_rootfs dir t True = Inr (False, p)
        \<and> os_walk dir t = ws1 @ (root, fs, es) # ws2
        \<and> order_files (module_desc None m) fs = Inr (xs @ y # ys)
        \<and> total_files ws1 + length xs = 6
        \<and> recurse_walk rec E (module_desc None m) ws1 0 it s = Some (Inr (Next c), it1, s1)
        \<and> recurse_files rec E root es xs c it1 s1 = Some (Inr (Next c'), it2, s2) \<longrightarrow>
        check_recursive rec E fmt it s = Some (Inr True, it2\<lparr>terminate := True\<rparr>, s2)
        \<and> get_status (update_status s2 (it2\<lparr>terminate := True\<rparr>)))
   \<and> (directory m = Some (dir, t) \<and> io_find_rootfs dir t True = Inr (False, p)
        \<and> recurse_walk rec E (module_desc desc m) (os_walk dir t) 0 it s
            = Some (Inr (Return b), it1, s1) \<longrightarrow>
        recurse_modules rec E desc (m # ms) it s = Some (Inr b, it1, s1))
   \<and> (scan E True fmt it = Some ms \<longrightarrow>
        check_recursive rec E fmt it s = recurse_modules rec E None ms it s)
   \<and> check_archive rec E it s = check_recursive rec E ''archive'' it s
   \<and> check_compressed rec E it s = check_recursive rec E ''compressed'' it s
   \<and> ((\<forall>child z. \<exists>child' z'. rec child z = Some (False, child', z'))
        \<and> list_all (\<lambda>f. \<exists>d. map_of es f = Some (File d)) xs
        \<and> cnt + length xs \<le> 6 \<longrightarrow>
        (\<exists>s'. recurse_files rec E root es xs cnt it s = Some (Inr (Next (cnt + length xs)), it, s'))
        \<and> length (files_children rec E root es xs cnt it s) = length xs)
   \<and> (scan E True fmt it = Some (m # ms) \<and> directory m = Some (dir, t)
        \<and> io_find_rootfs dir t True = Inr (False, p)
        \<and> os_walk dir t = (root, fs, es) # ws2 \<and> 6 < length fs
        \<and> list_all (\<lambda>f. \<exists>d. map_of es f = Some (File d)) fs
        \<and> order_files (module_desc None m) fs = Inr zs
        \<and> (\<forall>child z. \<exists>child' z'. rec child z = Some (False, child', z')) \<longrightarrow>
        (\<exists>s'. check_recursive rec E fmt it s = Some (Inr True, it\<lparr>terminate := True\<rparr>, s'))
        \<and> length (files_children rec E root es (take 6 zs) 0 it s) = 6)"
proof (intro conjI)
  show "order_files desc fs = Inr (xs @ y # ys) \<and> total_files ws1 + length xs = 6 \<longrightarrow>
      recurse_walk rec E desc (ws1 @ (root, fs, es) # ws2) 0 it s
        = (case recurse_walk rec E desc ws1 0 it s of
             Some (Inr (Next c), it1, s1) \<Rightarrow>
               (case recurse_files rec E root es xs c it1 s1 of
                  Some (Inr (Next c'), it2, s2) \<Rightarrow>
                    Some (Inr (Return True), it2\<lparr>terminate := True\<rparr>, s2)
                | r \<Rightarrow> r)
           | r \<Rightarrow> r)"
    using recurse_walk_cut[of desc fs xs y ys ws1 rec E root es ws2 it s] by blast
  show "recurse_walk rec E desc ws 0 it s = Some (Inr (Next c), it1, s1) \<longrightarrow>
        c = total_files ws \<and> c \<le> 6"
    using recurse_walk_cut[of desc fs xs y ys ws1 rec E root es ws2 it s ws c it1 s1] by blast
  show "scan E True fmt it = Some (m # ms) \<and> directory m = Some (dir, t)
        \<and> io_find_rootfs dir t True = Inr (False, p)
        \<and> os_walk dir t = ws1 @ (root, fs, es) # ws2
        \<and> order_files (module_desc None m) fs = Inr (xs @ y # ys)
        \<and> total_files ws1 + length xs = 6
        \<and> recurse_walk rec E (module_desc None m) ws1 0 it s = Some (Inr (Next c), it1, s1)
        \<and> recurse_files rec E root es xs c it1 s1 = Some (Inr (Next c'), it2, s2) \<longrightarrow>
        check_recursive rec E fmt it s = Some (Inr True, it2\<lparr>terminate := True\<rparr>, s2)
        \<and> get_status (update_status s2 (it2\<lparr>terminate := True\<rparr>))"
  proof (intro impI)
    assume a: "scan E True fmt it = Some (m # ms) \<and> directory m = Some (dir, t)
        \<and> io_find_rootfs dir t True = Inr (False, p)
        \<and> os_walk dir t = ws1 @ (root, fs, es) # ws2
        \<and> order_files (module_desc None m) fs = Inr (xs @ y # ys)
        \<and> total_files ws1 + length xs = 6
        \<and> recurse_walk rec E (module_desc None m) ws1 0 it s = Some (Inr (Next c), it1, s1)
        \<and> recurse_files rec E root es xs c it1 s1 = Some (Inr (Next c'), it2, s2)"
    then have "recurse_walk rec E (module_desc None m) (os_walk dir t) 0 it s
        = Some (Inr (Return True), it2\<lparr>terminate := True\<rparr>, s2)"
      using recurse_walk_cut[of "module_desc None m" fs xs y ys ws1 rec E root es ws2 it s]
      by simp
    with a show "check_recursive rec E fmt it s = Some (Inr True, it2\<lparr>terminate := True\<rparr>, s2)
        \<and> get_status (update_status s2 (it2\<lparr>terminate := True\<rparr>))"
      by (simp add: check_recursive_def get_status_def)
  qed
  show "directory m = Some (dir, t) \<and> io_find_rootfs dir t True = Inr (False, p)
        \<and> recurse_walk rec E (module_desc desc m) (os_walk dir t) 0 it s
            = Some (Inr (Return b), it1, s1) \<longrightarrow>
        recurse_modules rec E desc (m # ms) it s = Some (Inr b, it1, s1)"
    by simp
  show "scan E True fmt it = Some ms \<longrightarrow>
        check_recursive rec E fmt it s = recurse_modules rec E None ms it s"
    by (simp add: check_recursive_def)
  show "check_archive rec E it s = check_recursive rec E ''archive'' it s"
    by (simp add: check_archive_def)
  show "check_compressed rec E it s = check_recursive rec E ''compressed'' it s"
    by (simp add: check_compressed_def)
  show "(\<forall>child z. \<exists>child' z'. rec child z = Some (False, child', z'))
        \<and> list_all (\<lambda>f. \<exists>d. map_of es f = Some (File d)) xs
        \<and> cnt + length xs \<le> 6 \<longrightarrow>
        (\<exists>s'. recurse_files rec E root es xs cnt it s = Some (Inr (Next (cnt + length xs)), it, s'))
        \<and> length (files_children rec E root es xs cnt it s) = length xs"
  proof (intro impI)
    assume a: "(\<forall>child z. \<exists>child' z'. rec child z = Some (False, child', z'))
        \<and> list_all (\<lambda>f. \<exists>d. map_of es f = Some (File d)) xs
        \<and> cnt + length xs \<le> 6"
    then have "\<exists>s'. recurse_files rec E root es xs cnt it s
        = Some (Inr (Next (cnt + length xs)), it, s')"
      by (intro recurse_files_all_false) (auto simp: RECURSION_BREADTH_def)
    then show "(\<exists>s'. recurse_files rec E root es xs cnt it s
          = Some (Inr (Next (cnt + length xs)), it, s'))
        \<and> length (files_children rec E root es xs cnt it s) = length xs"
      by (auto dest: files_children_all)
  qed
  show "scan E True fmt it = Some (m # ms) \<and> directory m = Some (dir, t)
        \<and> io_find_rootfs dir t True = Inr (False, p)
        \<and> os_walk dir t = (root, fs, es) # ws2 \<and> 6 < length fs
        \<and> list_all (\<lambda>f. \<exists>d. map_of es f = Some (File d)) fs
        \<and> order_files (module_desc None m) fs = Inr zs
        \<and> (\<forall>child z. \<exists>child' z'. rec child z = Some (False, child', z')) \<longrightarrow>
        (\<exists>s'. check_recursive rec E fmt it s = Some (Inr True, it\<lparr>terminate := True\<rparr>, s'))
        \<and> length (files_children rec E root es (take 6 zs) 0 it s) = 6"
    using check_recursive_seven[of E fmt it m ms dir t p root fs es ws2 zs rec s] by blast
qed

theorem check_recursive_breadth_witness:
  "check_recursive (item_extract (Suc 0) (archive_env seven_files)) (archive_env seven_files)
      ''archive'' archive_item ex_state
     = Some (Inr True, archive_item\<lparr>terminate := True\<rparr>,
             ex_state\<lparr>visited := [''m'', ''mm'', ''mmm'', ''mmmm'', ''mmmmm'', ''mmmmmm''],
                        temp_count := 6\<rparr>)
   \<and> get_status (update_status
        (ex_state\<lparr>visited := [''m'', ''mm'', ''mmm'', ''mmmm'', ''mmmmm'', ''mmmmmm''],
                   temp_count := 6\<rparr>)
        (archive_item\<lparr>terminate := True\<rparr>))
   \<and> check_archive (item_extract (Suc 0) (archive_env seven_files)) (archive_env seven_files)
        archive_item ex_state
     = Some (Inr True, archive_item\<lparr>terminate := True\<rparr>,
             ex_state\<lparr>visited := [''m'', ''mm'', ''mmm'', ''mmmm'', ''mmmmm'', ''mmmmmm''],
                        temp_count := 6\<rparr>)
   \<and> recurse_walk (item_extract (Suc 0) (archive_env seven_files)) (archive_env seven_files) None
      (os_walk ''/tmp/tmp/_fw.extracted'' seven_files) 0 archive_item ex_state
     = Some (Inr (Return True), archive_item\<lparr>terminate := True\<rparr>,
             ex_state\<lparr>visited := [''m'', ''mm'', ''mmm'', ''mmmm'', ''mmmmm'', ''mmmmmm''],
                        temp_count := 6\<rparr>)
   \<and> recurse_walk (item_extract (Suc 0) (archive_env two_files)) (archive_env two_files) None
      (os_walk ''/tmp/tmp/_fw.extracted'' two_files) 0 archive_item ex_state
     = Some (Inr (Next 2), archive_item, ex_state\<lparr>visited := [''m'', ''mm''], temp_count := 2\<rparr>)
   \<and> total_files (os_walk ''/tmp/tmp/_fw.extracted'' two_files) = 2
   \<and> (\<exists>s'. recurse_files (\<lambda>child z. Some (False, child, z)) (archive_env seven_files)
          ''/tmp/tmp/_fw.extracted'' (entries seven_files)
          [''f0'', ''f1'', ''f2'', ''f3'', ''f4'', ''f5''] 0 archive_item ex_state
        = Some (Inr (Next 6), archive_item, s'))
   \<and> length (files_children (\<lambda>child z. Some (False, child, z)) (archive_env seven_files)
          ''/tmp/tmp/_fw.extracted'' (entries seven_files)
          [''f0'', ''f1'', ''f2'', ''f3'', ''f4'', ''f5''] 0 archive_item ex_state) = 6
   \<and> (\<exists>s'. check_recursive (\<lambda>child z. Some (False, child, z)) (archive_env seven_files)
          ''archive'' archive_item ex_state
        = Some (Inr True, archive_item\<lparr>terminate := True\<rparr>, s'))"
  using check_recursive_breadth[where desc = None
      and fs = "[''f0'', ''f1'', ''f2'', ''f3'', ''f4'', ''f5'', ''f6'']"
      and xs = "[''f0'', ''f1'', ''f2'', ''f3'', ''f4'', ''f5'']" and y = "''f6''" and ys = "[]"
      and ?ws1.0 = "[]" and rec = "item_extract (Suc 0) (archive_env seven_files)"
      and E = "archive_env seven_files" and root = "''/tmp/tmp/_fw.extracted''"
      and es = "entries seven_files" and ?ws2.0 = "[]" and it = archive_item and s = ex_state
      and fmt = "''archive''"
      and m = "\<lparr>results = [\<lparr>description = ''POSIX tar archive'', offset = 0\<rparr>],
                directory = Some (''/tmp/tmp/_fw.extracted'', seven_files)\<rparr>"
      and ms = "[]" and dir = "''/tmp/tmp/_fw.extracted''" and t = seven_files and p = "''/tmp/tmp/_fw.extracted''"
      and c = 0 and ?it1.0 = archive_item and ?s1.0 = ex_state and c' = 6 and ?it2.0 = archive_item
      and ?s2.0 = "ex_state\<lparr>visited := [''m'', ''mm'', ''mmm'', ''mmmm'', ''mmmmm'', ''mmmmmm''],
                        temp_count := 6\<rparr>"
      and b = True]
    check_recursive_breadth[where desc = None
      and rec = "item_extract (Suc 0) (archive_env two_files)"
      and E = "archive_env two_files" and it = archive_item and s = ex_state
      and ws = "os_walk ''/tmp/tmp/_fw.extracted'' two_files" and c = 2 and ?it1.0 = archive_item
      and ?s1.0 = "ex_state\<lparr>visited := [''m'', ''mm''], temp_count := 2\<rparr>"]
    check_recursive_breadth[where rec = "\<lambda>child z. Some (False, child, z)"
      and E = "archive_env seven_files" and root = "''/tmp/tmp/_fw.extracted''"
      and es = "entries seven_files" and xs = "[''f0'', ''f1'', ''f2'', ''f3'', ''f4'', ''f5'']"
      and cnt = 0 and it = archive_item and s = ex_state
      and fmt = "''archive''"
      and m = "\<lparr>results = [\<lparr>description = ''POSIX tar archive'', offset = 0\<rparr>],
                directory = Some (''/tmp/tmp/_fw.extracted'', seven_files)\<rparr>"
      and ms = "[]" and dir = "''/tmp/tmp/_fw.extracted''" and t = seven_files
      and p = "''/tmp/tmp/_fw.extracted''"
      and fs = "[''f0'', ''f1'', ''f2'', ''f3'', ''f4'', ''f5'', ''f6'']" and ?ws2.0 = "[]"
      and zs = "[''f0'', ''f1'', ''f2'', ''f3'', ''f4'', ''f5'', ''f6'']"]
  by (simp add: walk_simps ex_simps run_simps io_find_rootfs.simps unix_count_def
        UNIX_DIRS_def UNIX_THRESHOLD_def isdir_in_def module_desc_def)

section \<open>The visited set\<close>

lemma grows_refl [simp]: "grows s s"
  by (simp add: grows_def)

lemma grows_trans: "grows s s1 \<Longrightarrow> grows s1 s2 \<Longrightarrow> grows s s2"
  by (auto simp: grows_def)

lemma grows_same: "visited s' = visited s \<Longrightarrow> grows s s'"
  by (simp add: grows_def)

lemma grows_same_left: "visited s1 = visited s \<Longrightarrow> grows s1 s2 \<Longrightarrow> grows s s2"
  by (simp add: grows_def)

lemma keepsD: "keeps rec \<Longrightarrow> rec c z = Some (r, c', z') \<Longrightarrow> grows z z'"
  unfolding keeps_def by blast

lemma mkstemp_visited [simp]: "visited (snd (mkstemp E d s)) = visited s"
  by (simp add: mkstemp_def)

lemma found_rootfs_visited [simp]: "visited (found_rootfs root it s) = visited s"
  by (simp add: found_rootfs_def split: option.splits)

lemma carve_grows:
  assumes "keeps rec" "carve rec E off sz it s = Some (r, s')"
  shows "grows s s'"
proof -
  obtain p s1 where m: "mkstemp E (temp it) s = (p, s1)" by (cases "mkstemp E (temp it) s")
  then have v: "visited s1 = visited s" using mkstemp_visited[of E "temp it" s] by simp
  show ?thesis
  proof (cases "io_dd (content it) off sz")
    case (Inl x)
    with assms(2) m have "s' = s1" by (simp add: carve_def)
    with v show ?thesis by (simp add: grows_same)
  next
    case (Inr d)
    with assms(2) m obtain b ch where
      "rec (ExtractionItem E s1 p d (depth it)) s1 = Some (b, ch, s')"
      by (auto simp: carve_def split: option.splits)
    from keepsD[OF assms(1) this] v show ?thesis by (rule grows_same_left[rotated])
  qed
qed

lemma firmware_entry_grows:
  assumes "keeps rec" "firmware_entry rec E e it s = Some (r, it', s')"
  shows "grows s s'"
proof -
  have one: "grows s z" if "carve rec E off sz i s = Some (v, z)" for off sz v z i
    using carve_grows[OF assms(1) that] .
  have two: "grows s z'" if "carve rec E off sz i s = Some (v, z)"
      "carve rec E off' sz' i z = Some (v', z')" for off sz v z off' sz' v' z' i
    using carve_grows[OF assms(1) that(1)] carve_grows[OF assms(1) that(2)] by (rule grows_trans)
  from assms(2) show ?thesis
    unfolding firmware_entry_def
    by (auto split: if_splits sum.splits option.splits prod.splits dest: one two)
qed


lemma firmware_entries_grows:
  "keeps rec \<Longrightarrow> firmware_entries rec E es it s = Some (r, it', s') \<Longrightarrow> grows s s'"
proof (induction es arbitrary: it s)
  case Nil
  then show ?case by simp
next
  case (Cons e es)
  from Cons.prems(2) obtain v i1 s1 where
    fe: "firmware_entry rec E e it s = Some (v, i1, s1)"
    by (cases "firmware_entry rec E e it s") auto
  have g1: "grows s s1" by (rule firmware_entry_grows[OF Cons.prems(1) fe])
  show ?case
  proof (cases "\<exists>u. v = Inr (Next u)")
    case True
    with Cons.prems(2) fe have "firmware_entries rec E es i1 s1 = Some (r, it', s')" by auto
    from g1 Cons.IH[OF Cons.prems(1) this] show ?thesis by (rule grows_trans)
  next
    case False
    with Cons.prems(2) fe have "s' = s1"
      by (auto split: sum.splits flow.splits)
    with g1 show ?thesis by simp
  qed
qed

lemma firmware_modules_grows:
  "keeps rec \<Longrightarrow> firmware_modules rec E ms it s = Some (r, it', s') \<Longrightarrow> grows s s'"
proof (induction ms arbitrary: it s)
  case Nil
  then show ?case by simp
next
  case (Cons m ms)
  from Cons.prems(2) obtain v i1 s1 where
    fe: "firmware_entries rec E (results m) it s = Some (v, i1, s1)"
    by (cases "firmware_entries rec E (results m) it s") auto
  have g1: "grows s s1" by (rule firmware_entries_grows[OF Cons.prems(1) fe])
  show ?case
  proof (cases "\<exists>u. v = Inr (Next u)")
    case True
    with Cons.prems(2) fe have "firmware_modules rec E ms i1 s1 = Some (r, it', s')" by auto
    from g1 Cons.IH[OF Cons.prems(1) this] show ?thesis by (rule grows_trans)
  next
    case False
    with Cons.prems(2) fe have "s' = s1"
      by (auto split: sum.splits flow.splits)
    with g1 show ?thesis by simp
  qed
qed

lemma check_firmware_grows:
  "keeps rec \<Longrightarrow> check_firmware rec E it s = Some (r, it', s') \<Longrightarrow> grows s s'"
  by (auto simp: check_firmware_def split: option.splits dest: firmware_modules_grows)

lemma recurse_files_grows:
  "keeps rec \<Longrightarrow> recurse_files rec E root es fs cnt it s = Some (r, it', s') \<Longrightarrow> grows s s'"
proof (induction fs arbitrary: cnt it s)
  case Nil
  then show ?case by simp
next
  case (Cons f fs)
  show ?case
  proof (cases "cnt > RECURSION_BREADTH")
    case True
    with Cons.prems(2) show ?thesis by simp
  next
    case le: False
    show ?thesis
    proof (cases "\<exists>d. map_of es f = Some (File d)")
      case False
      with Cons.prems(2) le have "s' = s" by (auto split: option.splits fsnode.splits)
      then show ?thesis by simp
    next
      case True
      then obtain d where d: "map_of es f = Some (File d)" ..
      let ?child = "ExtractionItem E s (path_join root f) d (depth it + 1)"
      from Cons.prems(2) le d obtain b ni s1 where rc: "rec ?child s = Some (b, ni, s1)"
        by (auto split: option.splits)
      have g1: "grows s s1" by (rule keepsD[OF Cons.prems(1) rc])
      from Cons.prems(2) le d rc consider "s' = s1"
        | i1 where "recurse_files rec E root es fs (cnt + 1) i1 s1 = Some (r, it', s')"
        by (auto split: if_splits)
      then show ?thesis
      proof cases
        case 1
        with g1 show ?thesis by simp
      next
        case 2
        from g1 Cons.IH[OF Cons.prems(1) 2] show ?thesis by (rule grows_trans)
      qed
    qed
  qed
qed

lemma recurse_walk_grows:
  "keeps rec \<Longrightarrow> recurse_walk rec E desc ws cnt it s = Some (r, it', s') \<Longrightarrow> grows s s'"
proof (induction ws arbitrary: cnt it s)
  case Nil
  then show ?case by simp
next
  case (Cons w ws)
  obtain root fs es where w: "w = (root, fs, es)" by (cases w)
  show ?case
  proof (cases "order_files desc fs")
    case (Inl x)
    with Cons.prems(2) w show ?thesis by simp
  next
    case (Inr zs)
    with Cons.prems(2) w obtain v i1 s1 where
      rf: "recurse_files rec E root es zs cnt it s = Some (v, i1, s1)"
      by (cases "recurse_files rec E root es zs cnt it s") auto
    have g1: "grows s s1" by (rule recurse_files_grows[OF Cons.prems(1) rf])
    show ?thesis
    proof (cases "\<exists>c. v = Inr (Next c)")
      case True
      then obtain c where "v = Inr (Next c)" ..
      with Cons.prems(2) w Inr rf have "recurse_walk rec E desc ws c i1 s1 = Some (r, it', s')"
        by simp
      from g1 Cons.IH[OF Cons.prems(1) this] show ?thesis by (rule grows_trans)
    next
      case False
      with Cons.prems(2) w Inr rf have "s' = s1"
        by (auto split: sum.splits flow.splits)
      with g1 show ?thesis by simp
    qed
  qed
qed

lemma recurse_modules_grows:
  "keeps rec \<Longrightarrow> recurse_modules rec E desc ms it s = Some (r, it', s') \<Longrightarrow> grows s s'"
proof (induction ms arbitrary: desc it s)
  case Nil
  then show ?case by simp
next
  case (Cons m ms)
  show ?case
  proof (cases "directory m")
    case None
    with Cons.prems(2) have "recurse_modules rec E (module_desc desc m) ms it s = Some (r, it', s')"
      by simp
    from Cons.IH[OF Cons.prems(1) this] show ?thesis .
  next
    case (Some dt)
    obtain dir t where dt: "dt = (dir, t)" by (cases dt)
    show ?thesis
    proof (cases "io_find_rootfs dir t True")
      case (Inl x)
      with Cons.prems(2) Some dt show ?thesis by simp
    next
      case (Inr fr)
      obtain found root where fr: "fr = (found, root)" by (cases fr)
      show ?thesis
      proof (cases found)
        case True
        with Cons.prems(2) Some dt Inr fr have "s' = found_rootfs root it s" by auto
        then show ?thesis by (simp add: grows_same)
      next
        case False
        with Cons.prems(2) Some dt Inr fr obtain v i1 s1 where
          rw: "recurse_walk rec E (module_desc desc m) (os_walk dir t) 0 it s = Some (v, i1, s1)"
          by (cases "recurse_walk rec E (module_desc desc m) (os_walk dir t) 0 it s") auto
        have g1: "grows s s1" by (rule recurse_walk_grows[OF Cons.prems(1) rw])
        show ?thesis
        proof (cases "\<exists>c. v = Inr (Next c)")
          case True
          then obtain c where "v = Inr (Next c)" ..
          with Cons.prems(2) Some dt Inr fr False rw
          have "recurse_modules rec E (module_desc desc m) ms i1 s1 = Some (r, it', s')" by simp
          from g1 Cons.IH[OF Cons.prems(1) this] show ?thesis by (rule grows_trans)
        next
          case nn: False
          with Cons.prems(2) Some dt Inr fr False rw have "s' = s1"
            by (auto split: sum.splits flow.splits)
          with g1 show ?thesis by simp
        qed
      qed
    qed
  qed
qed

lemma check_recursive_grows:
  "keeps rec \<Longrightarrow> check_recursive rec E fmt it s = Some (r, it', s') \<Longrightarrow> grows s s'"
  by (auto simp: check_recursive_def split: option.splits dest: recurse_modules_grows)

lemma kernel_entries_visited: "kernel_entries es it s = (r, it', s') \<Longrightarrow> visited s' = visited s"
  by (induction es) (auto split: if_splits option.splits)

lemma check_kernel_grows: "check_kernel E it s = (r, it', s') \<Longrightarrow> grows s s'"
  by (auto simp: check_kernel_def split: if_splits option.splits list.splits
      dest!: kernel_entries_visited intro: grows_same)

lemma rootfs_modules_visited: "rootfs_modules ms it s = (r, it', s') \<Longrightarrow> visited s' = visited s"
  by (induction ms) (auto split: if_splits option.splits sum.splits prod.splits)

lemma check_rootfs_grows: "check_rootfs E it s = (r, it', s') \<Longrightarrow> grows s s'"
  by (auto simp: check_rootfs_def split: if_splits option.splits
      dest!: rootfs_modules_visited intro: grows_same)

lemma analyses_grows:
  "(\<And>a i z r i' z'. a \<in> set as \<Longrightarrow> a i z = Some (r, i', z') \<Longrightarrow> grows z z')
   \<Longrightarrow> analyses as it s = Some (r, it', s') \<Longrightarrow> grows s s'"
proof (induction as arbitrary: it s)
  case Nil
  then show ?case by simp
next
  case (Cons a as)
  from Cons.prems(2) obtain v i1 s1 where a: "a it s = Some (v, i1, s1)"
    by (cases "a it s") auto
  have g1: "grows s s1" using Cons.prems(1)[of a it s v i1 s1] a by simp
  from Cons.prems(2) a consider "s' = s1"
    | i2 where "analyses as i2 s1 = Some (r, it', s')"
    by (auto split: sum.splits if_splits)
  then show ?case
  proof cases
    case 1
    with g1 show ?thesis by simp
  next
    case 2
    have "grows s1 s'"
    proof (rule Cons.IH[OF _ 2])
      fix a' i z v' i' z'
      assume "a' \<in> set as" "a' i z = Some (v', i', z')"
      then show "grows z z'" using Cons.prems(1)[of a' i z v' i' z'] by simp
    qed
    with g1 show ?thesis by (rule grows_trans)
  qed
qed

lemma cascade_grows:
  assumes "keeps rec" "cascade rec E it s = Some (r, it', s')"
  shows "grows s s'"
  using assms(2) unfolding cascade_def
proof (rule analyses_grows[rotated])
  fix a i z v i' z'
  assume "a \<in> set [check_archive rec E, \<lambda>i z. Some (check_encryption i z), check_firmware rec E,
            \<lambda>i z. Some (check_kernel E i z), \<lambda>i z. Some (check_rootfs E i z),
            check_compressed rec E]"
    and "a i z = Some (v, i', z')"
  then show "grows z z'"
    using check_recursive_grows[OF assms(1)] check_firmware_grows[OF assms(1)]
      check_kernel_grows check_rootfs_grows
    by (auto simp: check_archive_def check_compressed_def check_encryption_def)
qed

lemma grows_append:
  "x \<notin> set (visited s) \<Longrightarrow> visited s1 = visited s @ [x] \<Longrightarrow> grows s s1"
  by (simp add: grows_def)

lemma extract_body_keeps:
  assumes "keeps rec"
  shows "keeps (extract_body rec E)"
  unfolding keeps_def
proof (intro allI impI)
  fix c z r c' z'
  assume e: "extract_body rec E c z = Some (r, c', z')"
  show "grows z z'"
  proof (cases "get_status c \<or> depth c > RECURSION_DEPTH \<or> checksum c \<in> set (visited z)")
    case True
    with e have "z' = z" by (auto simp: extract_body_def split: if_splits)
    then show ?thesis by simp
  next
    case False
    let ?z1 = "z\<lparr>visited := visited z @ [checksum c]\<rparr>"
    from False have g1: "grows z ?z1" by (intro grows_append) auto
    show ?thesis
    proof (cases "check_blacklist E c")
      case True
      with e False have "z' = ?z1" by (auto simp: extract_body_def)
      with g1 show ?thesis by simp
    next
      case nb: False
      obtain t z2 where m: "mkdtemp E ?z1 = (t, z2)" by (cases "mkdtemp E ?z1")
      then have v: "visited z2 = visited ?z1" by (auto simp: mkdtemp_def mkstemp_def)
      from e False nb m have "cascade rec E (c\<lparr>temp := Some t\<rparr>) z2 = Some (r, c', z')"
        by (auto simp: extract_body_def)
      from cascade_grows[OF assms this] have "grows z2 z'" .
      with v have "grows ?z1 z'" by (rule grows_same_left)
      with g1 show ?thesis by (rule grows_trans)
    qed
  qed
qed

lemma item_extract_keeps: "keeps (item_extract n E)"
proof (induction n)
  case 0
  show ?case by (simp add: keeps_def)
next
  case (Suc n)
  then show ?case by (simp add: extract_body_keeps)
qed

lemma item_extract_adds:
  assumes "item_extract n E it s = Some (r, it', s')" "\<not> get_status it" "depth it \<le> RECURSION_DEPTH"
  shows "checksum it \<in> set (visited s')"
proof -
  from assms(1) obtain k where n: "n = Suc k" by (cases n) auto
  show ?thesis
  proof (cases "checksum it \<in> set (visited s)")
    case True
    from item_extract_keeps[of n E] assms(1) have "grows s s'" by (rule keepsD)
    then have "prefix (visited s) (visited s')" by (simp add: grows_def)
    then have "set (visited s) \<subseteq> set (visited s')" by (rule set_mono_prefix)
    with True show ?thesis by auto
  next
    case False
    let ?z1 = "s\<lparr>visited := visited s @ [checksum it]\<rparr>"
    have "grows ?z1 s'"
    proof (cases "check_blacklist E it")
      case True
      with assms n False have "s' = ?z1" by (auto simp: extract_body_def)
      then show ?thesis by simp
    next
      case nb: False
      obtain t z2 where m: "mkdtemp E ?z1 = (t, z2)" by (cases "mkdtemp E ?z1")
      then have v: "visited z2 = visited ?z1" by (auto simp: mkdtemp_def mkstemp_def)
      from assms n False nb m
      have "cascade (item_extract k E) E (it\<lparr>temp := Some t\<rparr>) z2 = Some (r, it', s')"
        by (auto simp: extract_body_def)
      from cascade_grows[OF item_extract_keeps this] have "grows z2 s'" .
      with v show ?thesis by (rule grows_same_left)
    qed
    then have "prefix (visited ?z1) (visited s')" by (simp add: grows_def)
    then have "set (visited ?z1) \<subseteq> set (visited s')" by (rule set_mono_prefix)
    then show ?thesis by simp
  qed
qed

lemma extract_items_grows:
  "extract_items n E xs s = Some (Inr s') \<Longrightarrow> grows s s'"
proof (induction xs arbitrary: s)
  case Nil
  then show ?case by simp
next
  case (Cons x xs)
  obtain path f where x: "x = (path, f)" by (cases x)
  from Cons.prems x obtain d where f: "f = Some (File d)"
    by (auto split: option.splits fsnode.splits)
  from Cons.prems x f obtain r i1 s1 where
    e: "item_extract n E (ExtractionItem E s path d 0) s = Some (r, i1, s1)"
    and rest: "extract_items n E xs s1 = Some (Inr s')"
    by (auto split: option.splits)
  from keepsD[OF item_extract_keeps e] Cons.IH[OF rest] show ?case by (rule grows_trans)
qed


lemma extract_visited_skip:
  "checksum it \<in> set (visited s) \<Longrightarrow> item_extract (Suc n) E it s = Some (get_status it, it, s)"
  by (simp add: extract_body_def)

text \<open>
  C10. In \<^verbatim>\<open>extract\<close> the checksum is tested and added before the blacklist is
  asked: \<open>visited\<close> only grows, and never by a checksum it holds; the checksum of an
  item that got past the tests of completion and depth is in \<open>visited\<close> when the call
  returns, however it returns (skipped by the blacklist, or after the checks, or after
  an exception in them); and in any later state a file of the same content is answered
  with the current status, the item and the state untouched. Over a whole job
  \<open>visited\<close> grows in the same way.
\<close>

theorem visited_once:
  "(item_extract n E it s = Some (r, it', s') \<longrightarrow> grows s s')
   \<and> (item_extract n E it s = Some (r, it', s') \<and> \<not> get_status it \<and> depth it \<le> RECURSION_DEPTH
        \<longrightarrow> checksum it \<in> set (visited s'))
   \<and> (\<not> get_status it \<and> depth it \<le> RECURSION_DEPTH \<and> checksum it \<notin> set (visited s)
        \<and> check_blacklist E it
        \<longrightarrow> item_extract (Suc n) E it s
              = Some (get_status it, it, s\<lparr>visited := visited s @ [checksum it]\<rparr>))
   \<and> (item_extract n E it s = Some (r, it', s') \<and> \<not> get_status it \<and> depth it \<le> RECURSION_DEPTH
        \<and> checksum it = md5 E (content it) \<and> grows s' z
        \<longrightarrow> item_extract (Suc m) E (ExtractionItem E z p (content it) d) z
              = Some (get_status (ExtractionItem E z p (content it) d),
                      ExtractionItem E z p (content it) d, z))
   \<and> (Extractor_extract n E inp t s = Some (Inr s1) \<longrightarrow> grows s s1)"
proof (intro conjI impI)
  assume "item_extract n E it s = Some (r, it', s')"
  then show "grows s s'" by (rule keepsD[OF item_extract_keeps])
next
  assume "item_extract n E it s = Some (r, it', s') \<and> \<not> get_status it \<and> depth it \<le> RECURSION_DEPTH"
  then show "checksum it \<in> set (visited s')" by (intro item_extract_adds) auto
next
  assume "\<not> get_status it \<and> depth it \<le> RECURSION_DEPTH \<and> checksum it \<notin> set (visited s)
        \<and> check_blacklist E it"
  then show "item_extract (Suc n) E it s
              = Some (get_status it, it, s\<lparr>visited := visited s @ [checksum it]\<rparr>)"
    by (simp add: extract_body_def)
next
  assume a: "item_extract n E it s = Some (r, it', s') \<and> \<not> get_status it \<and> depth it \<le> RECURSION_DEPTH
        \<and> checksum it = md5 E (content it) \<and> grows s' z"
  then have "checksum it \<in> set (visited s')" by (intro item_extract_adds) auto
  moreover from a have "prefix (visited s') (visited z)" by (simp add: grows_def)
  then have "set (visited s') \<subseteq> set (visited z)" by (rule set_mono_prefix)
  ultimately have "checksum (ExtractionItem E z p (content it) d) \<in> set (visited z)"
    using a by auto
  then show "item_extract (Suc m) E (ExtractionItem E z p (content it) d) z
              = Some (get_status (ExtractionItem E z p (content it) d),
                      ExtractionItem E z p (content it) d, z)"
    by (rule extract_visited_skip)
next
  assume "Extractor_extract n E inp t s = Some (Inr s1)"
  then show "grows s s1" unfolding Extractor_extract_def by (rule extract_items_grows)
qed

theorem visited_once_witness:
  "item_extract (Suc 0) ex_env (ex_item ''/in/a.dmg'' [1, 2, 3] 0) ex_state
     = Some (False, ex_item ''/in/a.dmg'' [1, 2, 3] 0, seen_state)
   \<and> grows ex_state seen_state
   \<and> checksum (ex_item ''/in/a.dmg'' [1, 2, 3] 0) \<in> set (visited seen_state)
   \<and> \<not> check_blacklist ex_env (ExtractionItem ex_env seen_state ''/in/b.bin'' [1, 2, 3] 0)
   \<and> item_extract (Suc 0) ex_env (ExtractionItem ex_env seen_state ''/in/b.bin'' [1, 2, 3] 0) seen_state
     = Some (False, ExtractionItem ex_env seen_state ''/in/b.bin'' [1, 2, 3] 0, seen_state)
   \<and> Extractor_extract (Suc 0) ex_env ''/in'' (Some in_dir) ex_state
     = Some (Inr (ex_state\<lparr>visited := [''mmm'', ''mm''], temp_count := 1\<rparr>))
   \<and> grows ex_state (ex_state\<lparr>visited := [''mmm'', ''mm''], temp_count := 1\<rparr>)"
  using visited_once[where n = "Suc 0" and E = ex_env and it = "ex_item ''/in/a.dmg'' [1, 2, 3] 0"
      and s = ex_state and r = False and it' = "ex_item ''/in/a.dmg'' [1, 2, 3] 0"
      and s' = seen_state and z = seen_state and m = 0 and p = "''/in/b.bin''" and d = 0
      and inp = "''/in''" and t = "Some in_dir"
      and ?s1.0 = "ex_state\<lparr>visited := [''mmm'', ''mm''], temp_count := 1\<rparr>"]
  by (simp add: in_dir_def seen_state_def ex_simps run_simps input_list_def
      Extractor_extract_def)

end
